theory Spec2Isabelle
  imports Main "HOL-Library.Multiset"
begin

unbundle bit_operations_syntax

section \<open>Grids\<close>

text \<open>
  A board is a JavaScript \<^verbatim>\<open>number[][]\<close>: a list of rows. The engine reads it with
  \<^verbatim>\<open>board[row][col]\<close> and writes it with \<^verbatim>\<open>board[row][col] = v\<close>. Reading past the
  end of a row yields \<^verbatim>\<open>undefined\<close>, which is neither \<^verbatim>\<open>=== 0\<close> nor \<^verbatim>\<open>=== num\<close>;
  \<open>cell\<close> returns \<open>None\<close> there. (Reading a row that does not exist throws in JavaScript;
  the engine is only ever handed boards of nine rows, and \<open>cell\<close> is \<open>None\<close> there too.)
  Every write of the engine goes to a cell it has just read, so \<open>put\<close> never has to
  extend a row.
\<close>

type_synonym grid = "int list list"

definition cell :: "grid \<Rightarrow> nat \<Rightarrow> nat \<Rightarrow> int option" where
  "cell board row col =
     (if row < length board \<and> col < length (board ! row) then Some (board ! row ! col) else None)"

definition put :: "grid \<Rightarrow> nat \<Rightarrow> nat \<Rightarrow> int \<Rightarrow> grid" where
  "put board row col v = board[row := (board ! row)[col := v]]"

text \<open>The shape the specification calls a Grid: nine rows of nine cells.\<close>

definition wf_grid :: "grid \<Rightarrow> bool" where
  "wf_grid board \<longleftrightarrow> length board = 9 \<and> list_all (\<lambda>row. length row = 9) board"

definition emptyGrid :: grid where
  "emptyGrid = replicate 9 (replicate 9 0)"

text \<open>
  The two nested loops \<^verbatim>\<open>for row < 9, for col < 9\<close> visit the cells in this order; it is
  also the list \<^verbatim>\<open>positions\<close> that \<^verbatim>\<open>createPuzzleFromSolution\<close> builds.
\<close>

definition positions :: "(nat \<times> nat) list" where
  "positions = concat (map (\<lambda>row. map (\<lambda>col. (row, col)) [0..<9]) [0..<9])"

text \<open>Number of clues: the non-zero cells of a board.\<close>

definition clueCount :: "grid \<Rightarrow> nat" where
  "clueCount board = length (filter (\<lambda>v. v \<noteq> 0) (concat board))"

section \<open>The engine (sudoku-engine)\<close>

subsection \<open>isValidMove\<close>

text \<open>
  Three scans: the row, the column and the 3x3 box of \<open>(row, col)\<close>; each skips the cell
  \<open>(row, col)\<close> itself.
\<close>

definition isValidMove :: "grid \<Rightarrow> nat \<Rightarrow> nat \<Rightarrow> int \<Rightarrow> bool" where
  "isValidMove board row col num =
     (list_all (\<lambda>x. \<not> (x \<noteq> col \<and> cell board row x = Some num)) [0..<9] \<and>
      list_all (\<lambda>x. \<not> (x \<noteq> row \<and> cell board x col = Some num)) [0..<9] \<and>
      (let boxRow = (row div 3) * 3; boxCol = (col div 3) * 3 in
       list_all (\<lambda>i. list_all (\<lambda>j. \<not> ((i \<noteq> row \<or> j \<noteq> col) \<and> cell board i j = Some num))
                  [boxCol..<boxCol + 3]) [boxRow..<boxRow + 3]))"

text \<open>The first cell, in row-major order, that holds 0.\<close>

definition findEmpty :: "grid \<Rightarrow> (nat \<times> nat) option" where
  "findEmpty board = find (\<lambda>(row, col). cell board row col = Some 0) positions"

subsection \<open>solveBacktrack and solveSudoku\<close>

text \<open>
  \<^verbatim>\<open>solveBacktrack\<close> works in place; the model returns the result together with the
  contents of the array when the call returns. \<open>solveNums\<close> is the loop
  \<^verbatim>\<open>for (num = 1; num <= 9; num++)\<close> at the first empty cell.
\<close>

function solveBacktrack :: "grid \<Rightarrow> bool \<times> grid"
  and solveNums :: "grid \<Rightarrow> nat \<Rightarrow> nat \<Rightarrow> int \<Rightarrow> bool \<times> grid"
where
  "solveBacktrack board =
     (case findEmpty board of
        None \<Rightarrow> (True, board)
      | Some (row, col) \<Rightarrow> solveNums board row col 1)"
| "solveNums board row col num =
     (if num \<le> 9 then
        if isValidMove board row col num then
          (case solveBacktrack (put board row col num) of
             (True, board') \<Rightarrow> (True, board')
           | (False, board') \<Rightarrow> solveNums (put board' row col 0) row col (num + 1))
        else solveNums board row col (num + 1)
      else (False, board))"
  by pat_completeness auto

subsection \<open>countSolutionsLimited and hasUniqueSolution\<close>

text \<open>
  \<^verbatim>\<open>countSolutionsLimited\<close> changes both the board and the array \<^verbatim>\<open>solutions\<close>; the model
  returns both. \<open>countNums\<close> is its loop over \<^verbatim>\<open>num\<close>.
\<close>

function countSolutionsLimited :: "grid \<Rightarrow> grid list \<Rightarrow> nat \<Rightarrow> grid \<times> grid list"
  and countNums :: "grid \<Rightarrow> grid list \<Rightarrow> nat \<Rightarrow> nat \<Rightarrow> nat \<Rightarrow> int \<Rightarrow> grid \<times> grid list"
where
  "countSolutionsLimited board solutions limit =
     (if length solutions \<ge> limit then (board, solutions)
      else case findEmpty board of
        None \<Rightarrow> (board, solutions @ [board])
      | Some (row, col) \<Rightarrow> countNums board solutions limit row col 1)"
| "countNums board solutions limit row col num =
     (if num \<le> 9 then
        if isValidMove board row col num then
          (case countSolutionsLimited (put board row col num) solutions limit of
             (board', solutions') \<Rightarrow>
               if length solutions' \<ge> limit then (put board' row col 0, solutions')
               else countNums (put board' row col 0) solutions' limit row col (num + 1))
        else countNums board solutions limit row col (num + 1)
      else (board, solutions))"
  by pat_completeness auto


text \<open>
  \<^verbatim>\<open>solveSudoku\<close> copies the board (\<^verbatim>\<open>board.map((row) => [...row])\<close>) and searches on
  the copy; \<open>None\<close> is the JavaScript \<^verbatim>\<open>null\<close>.
\<close>

definition solveSudoku :: "grid \<Rightarrow> grid option" where
  "solveSudoku board =
     (let solution = board in
      case solveBacktrack solution of
        (True, solution') \<Rightarrow> Some solution'
      | (False, solution') \<Rightarrow> None)"

text \<open>
  A missing cell is not a digit: \<open>validateSudoku\<close> rejects the board there (the case does
  not arise on a 9x9 board).
\<close>

definition validateSudoku :: "grid \<Rightarrow> bool" where
  "validateSudoku board =
     list_all (\<lambda>(row, col).
        case cell board row col of
          None \<Rightarrow> False
        | Some v \<Rightarrow> v \<noteq> 0 \<and> isValidMove board row col v) positions"

definition hasUniqueSolution :: "grid \<Rightarrow> bool" where
  "hasUniqueSolution board =
     (let boardCopy = board;
          (boardCopy', solutions) = countSolutionsLimited boardCopy [] 2
      in length solutions = 1)"

subsection \<open>Randomness and shuffleArray\<close>

text \<open>
  \<^verbatim>\<open>Math.random()\<close> is the only source of nondeterminism. It is modelled by an arbitrary
  sequence \<open>rnd\<close> and the number \<open>k\<close> of values drawn so far: the \<open>k\<close>-th draw of
  \<^verbatim>\<open>Math.floor(Math.random() * (i + 1))\<close> is \<open>rnd k mod (i + 1)\<close>, so that every index in
  \<open>0..i\<close> can come out. Functions that draw random numbers return the new \<open>k\<close>.

  \<^verbatim>\<open>shuffleArray\<close> copies its argument and shuffles the copy (Fisher-Yates, from the last
  index down to 1); \<open>shuffleLoop\<close> is its loop, the third argument the loop index \<open>i\<close>.
\<close>

fun shuffleLoop :: "(nat \<Rightarrow> nat) \<Rightarrow> 'a list \<Rightarrow> nat \<Rightarrow> nat \<Rightarrow> 'a list \<times> nat" where
  "shuffleLoop rnd shuffled 0 k = (shuffled, k)"
| "shuffleLoop rnd shuffled (Suc n) k =
     (let i = Suc n; j = rnd k mod (i + 1) in
      shuffleLoop rnd (shuffled[i := shuffled ! j, j := shuffled ! i]) n (Suc k))"

definition shuffleArray :: "(nat \<Rightarrow> nat) \<Rightarrow> 'a list \<Rightarrow> nat \<Rightarrow> 'a list \<times> nat" where
  "shuffleArray rnd array k = shuffleLoop rnd array (length array - 1) k"

subsection \<open>generateCompleteSudoku\<close>

definition fillBox :: "(nat \<Rightarrow> nat) \<Rightarrow> grid \<Rightarrow> nat \<Rightarrow> nat \<Rightarrow> nat \<Rightarrow> grid \<times> nat" where
  "fillBox rnd board row col k =
     (let (numbers, k') = shuffleArray rnd [1, 2, 3, 4, 5, 6, 7, 8, 9] k in
      (foldl (\<lambda>b (i, j). put b (row + i) (col + j) (numbers ! (3 * i + j))) board
         (concat (map (\<lambda>i. map (\<lambda>j. (i, j)) [0..<3]) [0..<3])), k'))"

definition fillDiagonalBoxes :: "(nat \<Rightarrow> nat) \<Rightarrow> grid \<Rightarrow> nat \<Rightarrow> grid \<times> nat" where
  "fillDiagonalBoxes rnd board k =
     foldl (\<lambda>(b, k') box. fillBox rnd b (box * 3) (box * 3) k') (board, k) [0..<3]"

text \<open>
  \<^verbatim>\<open>fillBoard\<close> is the randomised search: at the first empty cell it shuffles
  \<^verbatim>\<open>[1..9]\<close> and tries the digits in that order; \<open>fillNums\<close> is the loop
  \<^verbatim>\<open>for (const num of numbers)\<close>.
\<close>

function fillBoard :: "(nat \<Rightarrow> nat) \<Rightarrow> grid \<Rightarrow> nat \<Rightarrow> bool \<times> grid \<times> nat"
  and fillNums :: "(nat \<Rightarrow> nat) \<Rightarrow> grid \<Rightarrow> nat \<Rightarrow> nat \<Rightarrow> nat \<Rightarrow> int list \<Rightarrow> bool \<times> grid \<times> nat"
where
  "fillBoard rnd board k =
     (case findEmpty board of
        None \<Rightarrow> (True, board, k)
      | Some (row, col) \<Rightarrow>
          (case shuffleArray rnd [1, 2, 3, 4, 5, 6, 7, 8, 9] k of
             (numbers, k') \<Rightarrow> fillNums rnd board k' row col numbers))"
| "fillNums rnd board k row col [] = (False, board, k)"
| "fillNums rnd board k row col (num # nums) =
     (if isValidMove board row col num then
        (case fillBoard rnd (put board row col num) k of
           (True, board', k') \<Rightarrow> (True, board', k')
         | (False, board', k') \<Rightarrow> fillNums rnd (put board' row col 0) k' row col nums)
      else fillNums rnd board k row col nums)"
  by pat_completeness auto

text \<open>The result of \<^verbatim>\<open>fillBoard\<close> is not looked at.\<close>

definition generateCompleteSudoku :: "(nat \<Rightarrow> nat) \<Rightarrow> nat \<Rightarrow> grid \<times> nat" where
  "generateCompleteSudoku rnd k =
     (let board = replicate 9 (replicate 9 0);
          (board1, k1) = fillDiagonalBoxes rnd board k;
          (filled, board2, k2) = fillBoard rnd board1 k1
      in (board2, k2))"

subsection \<open>createPuzzleFromSolution\<close>

text \<open>
  \<open>removeLoop\<close> is the removal loop
  \<^verbatim>\<open>for (i = 0; i < positions.length && removed < toRemove; i++)\<close>; it returns the board and
  the counter \<^verbatim>\<open>removed\<close>. (A position outside the board is skipped; the positions of
  \<^verbatim>\<open>createPuzzleFromSolution\<close> lie inside a 9x9 board.)
\<close>

fun removeLoop :: "grid \<Rightarrow> (nat \<times> nat) list \<Rightarrow> int \<Rightarrow> int \<Rightarrow> grid \<times> int" where
  "removeLoop board [] toRemove removed = (board, removed)"
| "removeLoop board ((row, col) # rest) toRemove removed =
     (if removed < toRemove then
        (case cell board row col of
           None \<Rightarrow> removeLoop board rest toRemove removed
         | Some originalValue \<Rightarrow>
             (let board1 = put board row col 0 in
              if hasUniqueSolution board1 then removeLoop board1 rest toRemove (removed + 1)
              else removeLoop (put board1 row col originalValue) rest toRemove removed))
      else (board, removed))"

text \<open>
  The three calls \<^verbatim>\<open>shuffleArray(positions)\<close> draw random numbers, but
  \<^verbatim>\<open>shuffleArray\<close> shuffles a copy and the copy is dropped: \<^verbatim>\<open>positions\<close> stays in
  row-major order.
\<close>

definition createPuzzleFromSolution :: "(nat \<Rightarrow> nat) \<Rightarrow> grid \<Rightarrow> int \<Rightarrow> nat \<Rightarrow> grid \<times> nat" where
  "createPuzzleFromSolution rnd solution targetClues k =
     (let board = solution;
          k1 = snd (shuffleArray rnd positions k);
          k2 = snd (shuffleArray rnd positions k1);
          k3 = snd (shuffleArray rnd positions k2);
          toRemove = 81 - targetClues
      in (fst (removeLoop board positions toRemove 0), k3))"

subsection \<open>generateSudoku\<close>

datatype difficulty = easy | medium | hard | unknown

record GenerationOptions =
  clues :: int
  difficulty :: difficulty
  ensureUnique :: bool
  ensureSolvable :: bool

text \<open>
  The fields of a \<^verbatim>\<open>Puzzle\<close> carry the prefix \<open>puzzle\<close>: \<^verbatim>\<open>board\<close>, \<^verbatim>\<open>solution\<close> and
  \<^verbatim>\<open>clues\<close> are also names of variables and of fields of the options.
\<close>

record Puzzle =
  puzzleId :: string
  puzzleBoard :: grid
  puzzleSolution :: grid
  puzzleDifficulty :: difficulty
  puzzleClues :: int

text \<open>Decimal rendering of an integer (\<^verbatim>\<open>Number.prototype.toString\<close> on integers).\<close>

definition digitChar :: "nat \<Rightarrow> char" where
  "digitChar n = ''0123456789'' ! n"

function natToString :: "nat \<Rightarrow> string" where
  "natToString n =
     (if n < 10 then [digitChar n] else natToString (n div 10) @ [digitChar (n mod 10)])"
  by pat_completeness auto
termination
  by (relation "measure (\<lambda>n. n)") auto

definition toString :: "int \<Rightarrow> string" where
  "toString i = (if i < 0 then CHR ''-'' # natToString (nat (- i)) else natToString (nat i))"

text \<open>
  \<^verbatim>\<open>generateSudoku\<close> calls itself again when the uniqueness test fails, with nothing that
  counts the attempts. If every attempt failed the recursion would have no end and no
  puzzle would be returned (a JavaScript engine stops it with a \<^verbatim>\<open>RangeError\<close> when its
  stack is used up); \<open>None\<close> stands for that. \<open>generateLoop\<close> is the body of
  \<^verbatim>\<open>generateSudoku\<close> with the three functions it calls as parameters; \<open>now\<close> is the
  value of \<^verbatim>\<open>Date.now()\<close> when the puzzle is built.
\<close>

partial_function (option) generateLoop ::
  "(nat \<Rightarrow> grid \<times> nat) \<Rightarrow> (grid \<Rightarrow> int \<Rightarrow> nat \<Rightarrow> grid \<times> nat) \<Rightarrow> (grid \<Rightarrow> bool) \<Rightarrow>
   int \<Rightarrow> GenerationOptions \<Rightarrow> nat \<Rightarrow> Puzzle option"
where
  "generateLoop complete create unique now options k =
     (case complete k of (solution, k1) \<Rightarrow>
      case create solution (clues options) k1 of (board, k2) \<Rightarrow>
        if ensureUnique options \<and> \<not> unique board
        then generateLoop complete create unique now options k2
        else Some \<lparr>puzzleId = toString now, puzzleBoard = board, puzzleSolution = solution,
                   puzzleDifficulty = difficulty options, puzzleClues = clues options\<rparr>)"

definition generateSudoku :: "(nat \<Rightarrow> nat) \<Rightarrow> int \<Rightarrow> GenerationOptions \<Rightarrow> nat \<Rightarrow> Puzzle option" where
  "generateSudoku rnd =
     generateLoop (generateCompleteSudoku rnd) (createPuzzleFromSolution rnd) hasUniqueSolution"

section \<open>The checks on an extracted board (ocr-engine, puzzle-hash)\<close>

subsection \<open>hasConflicts\<close>

text \<open>
  The \<^verbatim>\<open>isValidMove\<close> of ocr-engine is a different function from the engine's: its scans
  do not skip the cell \<open>(row, col)\<close>.
\<close>

definition ocr_isValidMove :: "grid \<Rightarrow> nat \<Rightarrow> nat \<Rightarrow> int \<Rightarrow> bool" where
  "ocr_isValidMove board row col num =
     (list_all (\<lambda>x. cell board row x \<noteq> Some num) [0..<9] \<and>
      list_all (\<lambda>x. cell board x col \<noteq> Some num) [0..<9] \<and>
      (let boxRow = (row div 3) * 3; boxCol = (col div 3) * 3 in
       list_all (\<lambda>i. list_all (\<lambda>j. cell board i j \<noteq> Some num)
                  [boxCol..<boxCol + 3]) [boxRow..<boxRow + 3]))"

text \<open>
  \<^verbatim>\<open>hasConflicts\<close> writes to the board it is given: it takes each filled cell out, tests
  its digit and puts it back. The model returns the answer and the board. (It is called
  after the structure check, so every cell it visits exists.)
\<close>

fun hasConflictsLoop :: "grid \<Rightarrow> (nat \<times> nat) list \<Rightarrow> bool \<times> grid" where
  "hasConflictsLoop board [] = (False, board)"
| "hasConflictsLoop board ((row, col) # rest) =
     (case cell board row col of
        None \<Rightarrow> hasConflictsLoop board rest
      | Some num \<Rightarrow>
          if num \<noteq> 0 then
            (let board1 = put board row col 0;
                 isValid = ocr_isValidMove board1 row col num;
                 board2 = put board1 row col num
             in if \<not> isValid then (True, board2) else hasConflictsLoop board2 rest)
          else hasConflictsLoop board rest)"

definition hasConflicts :: "grid \<Rightarrow> bool \<times> grid" where
  "hasConflicts board = hasConflictsLoop board positions"

text \<open>The solution counter of ocr-engine is a stub.\<close>

definition ocr_countSolutions :: "grid \<Rightarrow> int" where
  "ocr_countSolutions board = 1"

subsection \<open>createPuzzleHash\<close>

text \<open>
  JavaScript's bitwise operators work on 32-bit signed integers: \<open>toInt32\<close> is the
  conversion they apply to their operands. Between them the arithmetic is that of
  numbers, which is exact on the integers that occur here.
\<close>

definition toInt32 :: "int \<Rightarrow> int" where
  "toInt32 x = (x + 2 ^ 31) mod 2 ^ 32 - 2 ^ 31"

definition shiftLeft :: "int \<Rightarrow> nat \<Rightarrow> int" where
  "shiftLeft a n = toInt32 (toInt32 a * 2 ^ (n mod 32))"

definition bitAnd :: "int \<Rightarrow> int \<Rightarrow> int" where
  "bitAnd a b = toInt32 a AND toInt32 b"

definition charCode :: "char \<Rightarrow> int" where
  "charCode c = of_char c"

definition hashStep :: "int \<Rightarrow> char \<Rightarrow> int" where
  "hashStep hash c =
     (let char = charCode c;
          hash1 = shiftLeft hash 5 - hash + char
      in bitAnd hash1 hash1)"

definition createPuzzleHash :: "grid \<Rightarrow> string" where
  "createPuzzleHash board =
     (let boardString = concat (map (\<lambda>row. concat (map toString row)) board);
          hash = foldl hashStep 0 boardString
      in toString hash)"

subsection \<open>checkForDuplicate\<close>

text \<open>
  The hashes seen so far live in \<^verbatim>\<open>localStorage\<close> under the key \<^verbatim>\<open>puzzleHashes\<close>.
  \<open>Some hashes\<close> is the stored list (empty when the key is absent); \<open>None\<close> stands for a
  store that cannot be read or parsed, where the code's \<^verbatim>\<open>catch\<close> answers "no duplicate".
\<close>

type_synonym storage = "string list option"

text \<open>
  The messages of the result, in the order in which the source has them:
  "Invalid board structure detected", "Invalid numbers detected in puzzle",
  "Puzzle contains conflicts - please check the image", "Puzzle has no valid solution",
  "Puzzle extracted successfully, but may have multiple solutions",
  "Puzzle extracted successfully with unique solution", and the duplicate warning.
\<close>

datatype message =
    InvalidStructure | InvalidNumbers | ContainsConflicts | NoValidSolution
  | MayHaveMultipleSolutions | UniqueSolution | DuplicateWarning

record DuplicateCheck =
  dupIsDuplicate :: bool
  dupMessage :: "message option"

definition checkForDuplicate :: "storage \<Rightarrow> grid \<Rightarrow> DuplicateCheck \<times> storage" where
  "checkForDuplicate localStorage board =
     (case localStorage of
        None \<Rightarrow> (\<lparr>dupIsDuplicate = False, dupMessage = None\<rparr>, localStorage)
      | Some existingHashes \<Rightarrow>
          (let puzzleHash = createPuzzleHash board in
           if puzzleHash \<in> set existingHashes
           then (\<lparr>dupIsDuplicate = True, dupMessage = Some DuplicateWarning\<rparr>, localStorage)
           else
             (let pushed = existingHashes @ [puzzleHash];
                  kept = (if length pushed > 1000 then drop (length pushed - 1000) pushed else pushed)
              in (\<lparr>dupIsDuplicate = False, dupMessage = None\<rparr>, Some kept))))"

subsection \<open>validateExtractedPuzzle\<close>

text \<open>
  The result object; \<open>None\<close> is a field that the returned object does not have. The model
  also returns the new contents of the store and the list of the functions that were
  called, in the order of the calls.
\<close>

record ValidationResult =
  isValid :: bool
  hasMultipleSolutions :: bool
  message :: message
  resultSolution :: "grid option"
  isDuplicate :: "bool option"
  duplicateMessage :: "message option"

datatype call = Call_hasConflicts | Call_checkForDuplicate | Call_solveSudoku | Call_countSolutions

definition validateExtractedPuzzle ::
  "storage \<Rightarrow> grid \<Rightarrow> ValidationResult \<times> storage \<times> call list" where
  "validateExtractedPuzzle localStorage board =
     (if length board \<noteq> 9 \<or> \<not> list_all (\<lambda>row. length row = 9) board then
        (\<lparr>isValid = False, hasMultipleSolutions = False, message = InvalidStructure,
          resultSolution = None, isDuplicate = None, duplicateMessage = None\<rparr>, localStorage, [])
      else if list_ex (\<lambda>(row, col). case cell board row col of
                                        None \<Rightarrow> False
                                      | Some c \<Rightarrow> c < 0 \<or> c > 9) positions then
        (\<lparr>isValid = False, hasMultipleSolutions = False, message = InvalidNumbers,
          resultSolution = None, isDuplicate = None, duplicateMessage = None\<rparr>, localStorage, [])
      else
        (case hasConflicts board of
           (True, board1) \<Rightarrow>
             (\<lparr>isValid = False, hasMultipleSolutions = False, message = ContainsConflicts,
               resultSolution = None, isDuplicate = None, duplicateMessage = None\<rparr>,
              localStorage, [Call_hasConflicts])
         | (False, board1) \<Rightarrow>
             (case checkForDuplicate localStorage board1 of
                (duplicateCheck, localStorage') \<Rightarrow>
                  (case solveSudoku board1 of
                     None \<Rightarrow>
                       (\<lparr>isValid = False, hasMultipleSolutions = False, message = NoValidSolution,
                         resultSolution = None,
                         isDuplicate = Some (dupIsDuplicate duplicateCheck),
                         duplicateMessage = dupMessage duplicateCheck\<rparr>,
                        localStorage',
                        [Call_hasConflicts, Call_checkForDuplicate, Call_solveSudoku])
                   | Some solution \<Rightarrow>
                       (let solutionCount = ocr_countSolutions board1 in
                        if solutionCount > 1 then
                          (\<lparr>isValid = True, hasMultipleSolutions = True,
                            message = MayHaveMultipleSolutions,
                            resultSolution = Some solution,
                            isDuplicate = Some (dupIsDuplicate duplicateCheck),
                            duplicateMessage = dupMessage duplicateCheck\<rparr>,
                           localStorage',
                           [Call_hasConflicts, Call_checkForDuplicate, Call_solveSudoku,
                            Call_countSolutions])
                        else
                          (\<lparr>isValid = True, hasMultipleSolutions = False,
                            message = UniqueSolution,
                            resultSolution = Some solution,
                            isDuplicate = Some (dupIsDuplicate duplicateCheck),
                            duplicateMessage = dupMessage duplicateCheck\<rparr>,
                           localStorage',
                           [Call_hasConflicts, Call_checkForDuplicate, Call_solveSudoku,
                            Call_countSolutions]))))))"

section \<open>Boards as objects\<close>

text \<open>
  A JavaScript board is an array of references to row arrays, and \<^verbatim>\<open>solveBacktrack\<close>
  writes into the rows it is given. To speak about the board of the caller of
  \<^verbatim>\<open>solveSudoku\<close>, rows get addresses: a heap is the list of the row arrays that exist
  (the address of a row is its index), and a board is the list of the addresses of its
  rows. No function of the engine changes the outer array of a board.

  \<^verbatim>\<open>board.map((row) => [...row])\<close> allocates one new row for each row of the board.
  \<^verbatim>\<open>solveBacktrack\<close>, called on a board whose rows are distinct arrays, leaves in these
  rows what \<open>solveBacktrack\<close> computes from their contents.
\<close>

type_synonym heap = "int list list"

definition deref :: "heap \<Rightarrow> nat list \<Rightarrow> grid" where
  "deref h board = map (\<lambda>a. h ! a) board"

definition copyBoard :: "heap \<Rightarrow> nat list \<Rightarrow> heap \<times> nat list" where
  "copyBoard h board = (h @ deref h board, [length h..<length h + length board])"

definition writeRows :: "heap \<Rightarrow> nat list \<Rightarrow> grid \<Rightarrow> heap" where
  "writeRows h board rows = foldl (\<lambda>h' (a, row). h'[a := row]) h (zip board rows)"

definition heap_solveBacktrack :: "heap \<Rightarrow> nat list \<Rightarrow> bool \<times> heap" where
  "heap_solveBacktrack h board =
     (case solveBacktrack (deref h board) of (found, rows) \<Rightarrow> (found, writeRows h board rows))"

definition heap_solveSudoku :: "heap \<Rightarrow> nat list \<Rightarrow> nat list option \<times> heap" where
  "heap_solveSudoku h board =
     (case copyBoard h board of (h1, solution) \<Rightarrow>
      case heap_solveBacktrack h1 solution of
        (True, h2) \<Rightarrow> (Some solution, h2)
      | (False, h2) \<Rightarrow> (None, h2))"

section \<open>Measure and example boards\<close>

text \<open>The number of empty cells of a board: the measure of the three searches.\<close>

definition zeros :: "grid \<Rightarrow> nat" where
  "zeros board = sum_list (map (\<lambda>row. count_list row 0) board)"

text \<open>
  The first two completions of the empty board that the counter reaches, and a third
  complete board.
\<close>

definition emptyFirst :: grid where
  "emptyFirst =
     [[1, 2, 3, 4, 5, 6, 7, 8, 9],
      [4, 5, 6, 7, 8, 9, 1, 2, 3],
      [7, 8, 9, 1, 2, 3, 4, 5, 6],
      [2, 1, 4, 3, 6, 5, 8, 9, 7],
      [3, 6, 5, 8, 9, 7, 2, 1, 4],
      [8, 9, 7, 2, 1, 4, 3, 6, 5],
      [5, 3, 1, 6, 4, 2, 9, 7, 8],
      [6, 4, 2, 9, 7, 8, 5, 3, 1],
      [9, 7, 8, 5, 3, 1, 6, 4, 2]]"

definition emptySecond :: grid where
  "emptySecond =
     [[1, 2, 3, 4, 5, 6, 7, 8, 9],
      [4, 5, 6, 7, 8, 9, 1, 2, 3],
      [7, 8, 9, 1, 2, 3, 4, 5, 6],
      [2, 1, 4, 3, 6, 5, 8, 9, 7],
      [3, 6, 5, 8, 9, 7, 2, 1, 4],
      [8, 9, 7, 2, 1, 4, 3, 6, 5],
      [5, 3, 1, 6, 4, 2, 9, 7, 8],
      [6, 4, 8, 9, 7, 1, 5, 3, 2],
      [9, 7, 2, 5, 3, 8, 6, 4, 1]]"

definition seededGrid :: grid where
  "seededGrid =
     [[1, 2, 3, 5, 4, 7, 6, 9, 8],
      [4, 5, 6, 2, 9, 8, 3, 1, 7],
      [7, 8, 9, 3, 6, 1, 2, 4, 5],
      [5, 6, 8, 1, 2, 3, 9, 7, 4],
      [9, 1, 7, 4, 5, 6, 8, 3, 2],
      [2, 3, 4, 7, 8, 9, 5, 6, 1],
      [6, 9, 5, 8, 7, 4, 1, 2, 3],
      [8, 7, 1, 9, 3, 2, 4, 5, 6],
      [3, 4, 2, 6, 1, 5, 7, 8, 9]]"

text \<open>
  \<open>nearlySolved\<close> is \<open>emptyFirst\<close> without its last three digits; \<open>stuckBoard\<close> has no
  digit for its first cell; \<open>twoWayBoard\<close> is \<open>emptyFirst\<close> without the six cells in
  which it differs from \<open>emptySecond\<close>.
\<close>

definition nearlySolved :: grid where
  "nearlySolved = put (put (put emptyFirst 8 6 0) 8 7 0) 8 8 0"

definition stuckBoard :: grid where
  "stuckBoard =
     [0, 1, 3, 4, 5, 6, 7, 8, 9] # [2, 0, 0, 0, 0, 0, 0, 0, 0] # replicate 7 (replicate 9 0)"

definition twoWayBoard :: grid where
  "twoWayBoard = put (put (put (put (put (put emptyFirst 7 2 0) 7 5 0) 7 8 0) 8 2 0) 8 5 0) 8 8 0"

text \<open>A heap that holds the rows of \<open>nearlySolved\<close> at 0..8 and those of \<open>stuckBoard\<close> at 9..17.\<close>

definition exampleHeap :: heap where
  "exampleHeap = nearlySolved @ stuckBoard"

text \<open>The board that \<^verbatim>\<open>extractSudokuFromImage\<close> returns.\<close>

definition sampleBoard :: grid where
  "sampleBoard =
     [[5, 3, 0, 0, 7, 0, 0, 0, 0],
      [6, 0, 0, 1, 9, 5, 0, 0, 0],
      [0, 9, 8, 0, 0, 0, 0, 6, 0],
      [8, 0, 0, 0, 6, 0, 0, 0, 3],
      [4, 0, 0, 8, 0, 3, 0, 0, 1],
      [7, 0, 0, 0, 2, 0, 0, 0, 6],
      [0, 6, 0, 0, 0, 0, 2, 8, 0],
      [0, 0, 0, 4, 1, 9, 0, 0, 5],
      [0, 0, 0, 0, 8, 0, 0, 7, 9]]"

text \<open>The sample board with a second 5 in its first row.\<close>

definition twoFives :: grid where
  "twoFives = put sampleBoard 0 2 5"

section \<open>The fingerprint as the specification words it\<close>

text \<open>
  The specification's fingerprint: write the cells in row-major order as one string of
  digit characters, fold it through \<open>h := h * 31 + charCode\<close>, wrapped to a 32-bit
  signed integer at every step and started at 0, and render the result in decimal.
\<close>

definition fingerprint_spec :: "grid \<Rightarrow> string" where
  "fingerprint_spec grid =
     (let digits = map (\<lambda>d. digitChar (nat d)) (concat grid)
      in toString (foldl (\<lambda>h c. toInt32 (h * 31 + charCode c)) 0 digits))"

section \<open>A random source and three requests\<close>

text \<open>
  A random source whose draws never swap (\<^verbatim>\<open>Math.floor(Math.random() * (i + 1))\<close> is
  always \<open>i\<close>, for \<open>i\<close> from 1 to 8), the board that \<^verbatim>\<open>fillDiagonalBoxes\<close> builds with it
  (whose completion by ascending digits is \<open>seededGrid\<close>), and three requests.
\<close>

definition noSwap :: "nat \<Rightarrow> nat" where
  "noSwap k = 2519"

definition diagonalSeed :: grid where
  "diagonalSeed =
     [[1, 2, 3, 0, 0, 0, 0, 0, 0],
      [4, 5, 6, 0, 0, 0, 0, 0, 0],
      [7, 8, 9, 0, 0, 0, 0, 0, 0],
      [0, 0, 0, 1, 2, 3, 0, 0, 0],
      [0, 0, 0, 4, 5, 6, 0, 0, 0],
      [0, 0, 0, 7, 8, 9, 0, 0, 0],
      [0, 0, 0, 0, 0, 0, 1, 2, 3],
      [0, 0, 0, 0, 0, 0, 4, 5, 6],
      [0, 0, 0, 0, 0, 0, 7, 8, 9]]"



definition options0 :: GenerationOptions where
  "options0 = \<lparr>clues = 0, difficulty = hard, ensureUnique = True, ensureSolvable = True\<rparr>"

section \<open>Completions of a board\<close>

text \<open>
  What the searches look for, in the words of the specification. A completion of a board
  is a 9x9 grid of digits 1 to 9 that keeps every non-zero cell of the board and passes
  \<^verbatim>\<open>validateSudoku\<close> (which does not look at the range of the digits). These notions
  are used in proofs about the generator.

  \<open>peer r c r' c'\<close>: the cell \<open>(r', c')\<close> is another cell of the row, the column or the
  box of \<open>(r, c)\<close>.
\<close>

definition peer :: "nat \<Rightarrow> nat \<Rightarrow> nat \<Rightarrow> nat \<Rightarrow> bool" where
  "peer r c r' c' \<longleftrightarrow>
     (r' = r \<and> c' < 9 \<and> c' \<noteq> c) \<or> (c' = c \<and> r' < 9 \<and> r' \<noteq> r) \<or>
     (r' div 3 = r div 3 \<and> c' div 3 = c div 3 \<and> (r' \<noteq> r \<or> c' \<noteq> c))"

text \<open>A board is consistent when it is 9x9, holds digits 0 to 9, and no filled cell
  has its digit a second time in its row, column or box.\<close>

definition consistent :: "grid \<Rightarrow> bool" where
  "consistent b \<longleftrightarrow>
     wf_grid b \<and> list_all (list_all (\<lambda>d. 0 \<le> d \<and> d \<le> 9)) b \<and>
     list_all (\<lambda>(row, col). case cell b row col of
                                None \<Rightarrow> False
                              | Some v \<Rightarrow> v = 0 \<or> isValidMove b row col v) positions"

definition completion :: "grid \<Rightarrow> grid \<Rightarrow> bool" where
  "completion b g \<longleftrightarrow>
     wf_grid g \<and> list_all (list_all (\<lambda>d. 1 \<le> d \<and> d \<le> 9)) g \<and>
     list_all2 (list_all2 (\<lambda>x y. x = 0 \<or> y = x)) b g \<and> validateSudoku g"

text \<open>
  What a counting search adds to the list of solutions: distinct boards with the property
  \<open>S\<close>, and all of them when the result stays below the limit.
\<close>

definition collects :: "grid list \<Rightarrow> nat \<Rightarrow> grid list \<Rightarrow> (grid \<Rightarrow> bool) \<Rightarrow> bool" where
  "collects sols lim res S \<longleftrightarrow>
     (\<exists>new. res = sols @ new \<and> distinct new \<and> (\<forall>g \<in> set new. S g) \<and>
            (length res < lim \<longrightarrow> (\<forall>g. S g \<longrightarrow> g \<in> set new)))"

text \<open>
  The board that \<^verbatim>\<open>fillDiagonalBoxes\<close> leaves: the three boxes of the diagonal hold the
  shuffled digits \<open>n 0\<close>, \<open>n 1\<close> and \<open>n 2\<close>, every other cell is empty.
\<close>

definition seeded :: "(nat \<Rightarrow> int list) \<Rightarrow> grid \<Rightarrow> bool" where
  "seeded n s \<longleftrightarrow>
     wf_grid s \<and> (\<forall>i<3. distinct (n i) \<and> set (n i) = {1..9} \<and> length (n i) = 9) \<and>
     (\<forall>r<9. \<forall>c<9. cell s r c =
        Some (if r div 3 = c div 3 then n (r div 3) ! (3 * (r mod 3) + c mod 3) else 0))"

section \<open>Termination of the searches\<close>

text \<open>The three searches terminate because every placement fills one more empty cell.\<close>

lemma put_put: "put (put b r c v) r c w = put b r c w"
  by (cases "r < length b") (simp_all add: put_def list_update_beyond)

lemma put_None: "cell b r c = None \<Longrightarrow> put b r c v = b"
  by (auto simp: cell_def put_def list_update_beyond not_less split: if_splits)

lemma put_same: "cell b r c = Some v \<Longrightarrow> put b r c v = b"
  by (auto simp: cell_def put_def split: if_splits)

lemma cell_put_same: "cell b r c \<noteq> None \<Longrightarrow> cell (put b r c v) r c = Some v"
  by (auto simp: cell_def put_def split: if_splits)

lemma cell_put_None: "cell (put b r c v) r' c' = None \<longleftrightarrow> cell b r' c' = None"
  by (cases "r' = r") (auto simp: cell_def put_def)

lemma count_list_update:
  "i < length xs \<Longrightarrow>
   count_list (xs[i := v]) a + (if xs ! i = a then 1 else 0) = count_list xs a + (if v = a then 1 else 0)"
proof (induction xs arbitrary: i)
  case Nil
  then show ?case by simp
next
  case (Cons x xs)
  show ?case
  proof (cases i)
    case 0
    then show ?thesis by simp
  next
    case (Suc j)
    with Cons.prems have "j < length xs" by simp
    from Cons.IH [OF this] Suc show ?thesis by (auto split: if_splits)
  qed
qed

lemma sum_list_map_update:
  "i < length xs \<Longrightarrow>
   sum_list (map f (xs[i := y])) + f (xs ! i) = sum_list (map f xs) + (f y :: nat)"
proof (induction xs arbitrary: i)
  case Nil
  then show ?case by simp
next
  case (Cons x xs)
  then show ?case by (cases i) auto
qed

lemma zeros_put:
  assumes "cell b r c = Some old"
  shows "zeros (put b r c v) + (if old = 0 then 1 else 0) = zeros b + (if v = 0 then 1 else 0)"
proof -
  from assms have r: "r < length b" and c: "c < length (b ! r)" and old: "b ! r ! c = old"
    by (auto simp: cell_def split: if_splits)
  have "zeros (put b r c v) + count_list (b ! r) 0 = zeros b + count_list ((b ! r)[c := v]) 0"
    unfolding zeros_def put_def using sum_list_map_update [OF r, of "\<lambda>row. count_list row 0"] by simp
  moreover have "count_list ((b ! r)[c := v]) 0 + (if old = 0 then 1 else 0)
      = count_list (b ! r) 0 + (if v = 0 then 1 else 0)"
    using count_list_update [OF c, of v 0] old by simp
  ultimately show ?thesis by linarith
qed

lemma zeros_put_le: "zeros (put b r c v) \<le> zeros (put b r c 0)"
proof (cases "cell b r c")
  case None
  then show ?thesis by (simp add: put_None)
next
  case (Some old)
  from zeros_put [OF Some, of v] zeros_put [OF Some, of 0] show ?thesis
    by (auto split: if_splits)
qed

lemma zeros_put_less:
  assumes "cell b r c \<noteq> None" and v: "v \<noteq> 0"
  shows "zeros (put b r c v) < zeros (put b r c 0)"
proof -
  from assms obtain old where old: "cell b r c = Some old" by auto
  from zeros_put [OF old, of v] zeros_put [OF old, of 0] v show ?thesis
    by (auto split: if_splits)
qed

lemma findEmpty_cell: "findEmpty b = Some (r, c) \<Longrightarrow> cell b r c = Some 0"
  unfolding findEmpty_def by (auto dest: find_Some_iff [THEN iffD1])

text \<open>A failed search has put every cell it tried back to 0.\<close>

lemma solve_restores_dom:
  "solveBacktrack_solveNums_dom (Inl board) \<Longrightarrow>
     \<not> fst (solveBacktrack board) \<Longrightarrow> snd (solveBacktrack board) = board"
  "solveBacktrack_solveNums_dom (Inr (b, row, col, num)) \<Longrightarrow>
     \<not> fst (solveNums b row col num) \<Longrightarrow>
     snd (solveNums b row col num) = b \<or> snd (solveNums b row col num) = put b row col 0"
proof (induction board and b row col num rule: solveBacktrack_solveNums.pinduct)
  case (1 board)
  show ?case
  proof (cases "findEmpty board")
    case None
    with 1 show ?thesis by (simp add: solveBacktrack.psimps)
  next
    case (Some p)
    obtain r c where p: "p = (r, c)" by (cases p)
    have z: "cell board r c = Some 0" using Some p findEmpty_cell by simp
    from 1 Some p have "snd (solveNums board r c 1) = board \<or> snd (solveNums board r c 1) = put board r c 0"
      by (simp add: solveBacktrack.psimps)
    with z have "snd (solveNums board r c 1) = board" by (auto simp: put_same)
    with 1 Some p show ?thesis by (simp add: solveBacktrack.psimps)
  qed
next
  case (2 board row col num)
  show ?case
  proof (cases "num \<le> 9")
    case False
    with 2 show ?thesis by (simp add: solveNums.psimps)
  next
    case le: True
    show ?thesis
    proof (cases "isValidMove board row col num")
      case False
      with 2 le show ?thesis by (simp add: solveNums.psimps)
    next
      case True
      obtain ok b' where r: "solveBacktrack (put board row col num) = (ok, b')"
        by (cases "solveBacktrack (put board row col num)")
      show ?thesis
      proof (cases ok)
        case True
        with 2 le \<open>isValidMove board row col num\<close> r show ?thesis by (simp add: solveNums.psimps)
      next
        case False
        with "2.IH"(1) [OF le True] r have b': "b' = put board row col num" by simp
        from 2(1) le True r False
        have eq: "solveNums board row col num = solveNums (put b' row col 0) row col (num + 1)"
          by (simp add: solveNums.psimps)
        from "2.IH"(2) [OF le True r [symmetric]] False "2.prems" eq
        have "snd (solveNums board row col num) = put b' row col 0
            \<or> snd (solveNums board row col num) = put (put b' row col 0) row col 0"
          by simp
        then show ?thesis by (simp add: b' put_put)
      qed
    qed
  qed
qed

lemma solve_total: "All solveBacktrack_solveNums_dom"
  apply (relation "inv_image (less_than <*lex*> less_than)
    (\<lambda>x. case x of
        Inl b \<Rightarrow> (zeros b, 11)
      | Inr (b, r, c, num) \<Rightarrow>
          (zeros (put b r c 0) + (if cell b r c \<noteq> None \<and> 0 < num then 0 else 2), nat (10 - num)))")
  subgoal by (intro wf_inv_image wf_lex_prod wf_less_than)
  subgoal for board p row col
    using findEmpty_cell [of board row col] by (simp add: put_same)
  subgoal for board row col num
    using zeros_put_le [of board row col num] zeros_put_less [of board row col num] by auto
  subgoal for board row col num ok b'
    using solve_restores_dom(1) [of "put board row col num"]
    by (cases "solveBacktrack (put board row col num)") (auto simp: put_put cell_put_None)
  subgoal by auto
  done

termination solveBacktrack
  by (rule solve_total)

lemmas solve_restores = solve_restores_dom [OF solve_total [THEN spec]]

declare solveBacktrack.simps [simp del] solveNums.simps [simp del]

lemma count_restores_dom:
  "countSolutionsLimited_countNums_dom (Inl (board, solutions, limit)) \<Longrightarrow>
     fst (countSolutionsLimited board solutions limit) = board"
  "countSolutionsLimited_countNums_dom (Inr (b, sols, lim, row, col, num)) \<Longrightarrow>
     fst (countNums b sols lim row col num) = b \<or> fst (countNums b sols lim row col num) = put b row col 0"
proof (induction board solutions limit and b sols lim row col num rule: countSolutionsLimited_countNums.pinduct)
  case (1 board solutions limit)
  show ?case
  proof (cases "length solutions \<ge> limit")
    case True
    with 1 show ?thesis by (simp add: countSolutionsLimited.psimps)
  next
    case False
    show ?thesis
    proof (cases "findEmpty board")
      case None
      with 1 False show ?thesis by (simp add: countSolutionsLimited.psimps)
    next
      case (Some p)
      obtain r c where p: "p = (r, c)" by (cases p)
      have z: "cell board r c = Some 0" using Some p findEmpty_cell by simp
      from "1.IH" [OF _ Some p [symmetric]] False
      have "fst (countNums board solutions limit r c 1) = board
          \<or> fst (countNums board solutions limit r c 1) = put board r c 0"
        by simp
      with z have "fst (countNums board solutions limit r c 1) = board" by (auto simp: put_same)
      with 1 False Some p show ?thesis by (simp add: countSolutionsLimited.psimps)
    qed
  qed
next
  case (2 board solutions limit row col num)
  show ?case
  proof (cases "num \<le> 9")
    case False
    with 2 show ?thesis by (simp add: countNums.psimps)
  next
    case le: True
    show ?thesis
    proof (cases "isValidMove board row col num")
      case False
      with 2 le show ?thesis by (simp add: countNums.psimps)
    next
      case True
      obtain b' s' where r: "countSolutionsLimited (put board row col num) solutions limit = (b', s')"
        by (cases "countSolutionsLimited (put board row col num) solutions limit")
      with "2.IH"(1) [OF le True] have b': "b' = put board row col num" by simp
      show ?thesis
      proof (cases "length s' \<ge> limit")
        case True
        with 2(1) le \<open>isValidMove board row col num\<close> r show ?thesis
          by (simp add: countNums.psimps b' put_put)
      next
        case False
        from 2(1) le True r False
        have eq: "countNums board solutions limit row col num
            = countNums (put b' row col 0) s' limit row col (num + 1)"
          by (simp add: countNums.psimps)
        from "2.IH"(2) [OF le True r [symmetric] False] eq
        have "fst (countNums board solutions limit row col num) = put b' row col 0
            \<or> fst (countNums board solutions limit row col num) = put (put b' row col 0) row col 0"
          by simp
        then show ?thesis by (simp add: b' put_put)
      qed
    qed
  qed
qed

lemma count_total: "All countSolutionsLimited_countNums_dom"
  apply (relation "inv_image (less_than <*lex*> less_than)
    (\<lambda>x. case x of
        Inl (b, s, l) \<Rightarrow> (zeros b, 11)
      | Inr (b, s, l, r, c, num) \<Rightarrow>
          (zeros (put b r c 0) + (if cell b r c \<noteq> None \<and> 0 < num then 0 else 2), nat (10 - num)))")
  subgoal by (intro wf_inv_image wf_lex_prod wf_less_than)
  subgoal for board solutions limit p row col
    using findEmpty_cell [of board row col] by (simp add: put_same)
  subgoal for board solutions limit row col num
    using zeros_put_le [of board row col num] zeros_put_less [of board row col num] by auto
  subgoal for board solutions limit row col num b' s'
    using count_restores_dom(1) [of "put board row col num" solutions limit]
    by (cases "countSolutionsLimited (put board row col num) solutions limit")
       (auto simp: put_put cell_put_None)
  subgoal by auto
  done

termination countSolutionsLimited
  by (rule count_total)

lemmas count_restores = count_restores_dom [OF count_total [THEN spec]]

declare countSolutionsLimited.simps [simp del] countNums.simps [simp del]

lemma shuffleLoop_mset: "n < length xs \<Longrightarrow> mset (fst (shuffleLoop rnd xs n k)) = mset xs"
proof (induction n arbitrary: xs k)
  case 0
  then show ?case by simp
next
  case (Suc n)
  have j: "rnd k mod (Suc n + 1) < length xs"
  proof -
    have "rnd k mod (Suc n + 1) < Suc n + 1" by (rule mod_less_divisor) simp
    with Suc.prems show ?thesis by linarith
  qed
  have "mset (xs[Suc n := xs ! (rnd k mod (Suc n + 1)), rnd k mod (Suc n + 1) := xs ! Suc n]) = mset xs"
    using mset_swap [OF j Suc.prems] by simp
  moreover have "n < length (xs[Suc n := xs ! (rnd k mod (Suc n + 1)), rnd k mod (Suc n + 1) := xs ! Suc n])"
    using Suc.prems by simp
  ultimately show ?case using Suc.IH by (simp add: Let_def)
qed

lemma shuffleArray_mset: "mset (fst (shuffleArray rnd xs k)) = mset xs"
proof (cases xs)
  case Nil
  then show ?thesis by (simp add: shuffleArray_def)
next
  case (Cons x xs')
  then show ?thesis unfolding shuffleArray_def by (intro shuffleLoop_mset) simp
qed

lemma shuffleArray_set: "set (fst (shuffleArray rnd xs k)) = set xs"
  using shuffleArray_mset [of rnd xs k] by (metis set_mset_mset)

lemma shuffleArray_length: "length (fst (shuffleArray rnd xs k)) = length xs"
  using shuffleArray_mset [of rnd xs k] by (metis size_mset)

lemma fill_restores_dom:
  "fillBoard_fillNums_dom (Inl (rnd, board, k)) \<Longrightarrow>
     \<not> fst (fillBoard rnd board k) \<Longrightarrow> fst (snd (fillBoard rnd board k)) = board"
  "fillBoard_fillNums_dom (Inr (rnd', b, k', row, col, nums)) \<Longrightarrow>
     \<not> fst (fillNums rnd' b k' row col nums) \<Longrightarrow>
     fst (snd (fillNums rnd' b k' row col nums)) = b
     \<or> fst (snd (fillNums rnd' b k' row col nums)) = put b row col 0"
proof (induction rnd board k and rnd' b k' row col nums rule: fillBoard_fillNums.pinduct)
  case (1 rnd board k)
  show ?case
  proof (cases "findEmpty board")
    case None
    with 1 show ?thesis by (simp add: fillBoard.psimps)
  next
    case (Some p)
    obtain r c where p: "p = (r, c)" by (cases p)
    obtain numbers k1 where sh: "shuffleArray rnd [1, 2, 3, 4, 5, 6, 7, 8, 9::int] k = (numbers, k1)"
      by (cases "shuffleArray rnd [1, 2, 3, 4, 5, 6, 7, 8, 9::int] k")
    have z: "cell board r c = Some 0" using Some p findEmpty_cell by simp
    have eq: "fillBoard rnd board k = fillNums rnd board k1 r c numbers"
      using 1(1) Some p sh by (simp add: fillBoard.psimps)
    from "1.IH" [OF Some p [symmetric] sh [symmetric]] "1.prems" eq
    have "fst (snd (fillNums rnd board k1 r c numbers)) = board
        \<or> fst (snd (fillNums rnd board k1 r c numbers)) = put board r c 0"
      by simp
    with z eq show ?thesis by (auto simp: put_same)
  qed
next
  case (2 rnd board k row col)
  then show ?case by (simp add: fillNums.psimps)
next
  case (3 rnd board k row col num nums)
  show ?case
  proof (cases "isValidMove board row col num")
    case False
    with 3 show ?thesis by (simp add: fillNums.psimps)
  next
    case True
    obtain ok b' k1 where r: "fillBoard rnd (put board row col num) k = (ok, b', k1)"
      by (cases "fillBoard rnd (put board row col num) k") auto
    show ?thesis
    proof (cases ok)
      case True
      with 3 \<open>isValidMove board row col num\<close> r show ?thesis by (simp add: fillNums.psimps)
    next
      case False
      with "3.IH"(1) [OF True] r have b': "b' = put board row col num" by simp
      from 3(1) True r False
      have eq: "fillNums rnd board k row col (num # nums) = fillNums rnd (put b' row col 0) k1 row col nums"
        by (simp add: fillNums.psimps)
      from "3.IH"(2) [OF True r [symmetric]] False "3.prems" eq
      have "fst (snd (fillNums rnd board k row col (num # nums))) = put b' row col 0
          \<or> fst (snd (fillNums rnd board k row col (num # nums))) = put (put b' row col 0) row col 0"
        by simp
      then show ?thesis by (simp add: b' put_put)
    qed
  qed
qed

lemma fill_total: "All fillBoard_fillNums_dom"
  apply (relation "inv_image (less_than <*lex*> less_than)
    (\<lambda>x. case x of
        Inl (rnd, b, k) \<Rightarrow> (zeros b, 10)
      | Inr (rnd, b, k, r, c, nums) \<Rightarrow>
          (zeros (put b r c 0) + (if cell b r c \<noteq> None \<and> 0 \<notin> set nums then 0 else 2), length nums))")
  subgoal by (intro wf_inv_image wf_lex_prod wf_less_than)
  subgoal for rnd board k p row col numbers k'
    using findEmpty_cell [of board row col] shuffleArray_set [of rnd "[1, 2, 3, 4, 5, 6, 7, 8, 9::int]" k]
      shuffleArray_length [of rnd "[1, 2, 3, 4, 5, 6, 7, 8, 9::int]" k]
    by (cases "shuffleArray rnd [1, 2, 3, 4, 5, 6, 7, 8, 9::int] k") (auto simp: put_same)
  subgoal for rnd board k row col num nums
    using zeros_put_le [of board row col num] zeros_put_less [of board row col num] by auto
  subgoal for rnd board k row col num nums ok rest b' k'
    using fill_restores_dom(1) [of rnd "put board row col num" k]
    by (cases "fillBoard rnd (put board row col num) k") (auto simp: put_put cell_put_None)
  subgoal by auto
  done

termination fillBoard
  by (rule fill_total)

lemmas fill_restores = fill_restores_dom [OF fill_total [THEN spec]]

declare fillBoard.simps [simp del] fillNums.simps [simp del]



section \<open>solveSudoku and the board of its caller\<close>

lemma put_shape: "map length (put b r c v) = map length b"
  by (cases "r < length b") (simp_all add: put_def map_update list_update_beyond list_update_same_conv)

lemma solve_shape:
  "map length (snd (solveBacktrack board)) = map length board"
  "map length (snd (solveNums b row col num)) = map length b"
proof (induction board and b row col num rule: solveBacktrack_solveNums.induct)
  case (1 board)
  then show ?case by (auto simp: solveBacktrack.simps [of board] split: option.splits)
next
  case (2 board row col num)
  note [simp] = solveNums.simps [of board row col num]
  show ?case
  proof (cases "num \<le> 9 \<and> isValidMove board row col num")
    case True
    obtain ok b' where r: "solveBacktrack (put board row col num) = (ok, b')"
      by (cases "solveBacktrack (put board row col num)")
    with 2(1) True have b': "map length b' = map length board" by (simp add: put_shape)
    show ?thesis
    proof (cases ok)
      case True
      with \<open>num \<le> 9 \<and> isValidMove board row col num\<close> r b' show ?thesis by simp
    next
      case False
      with 2(2) [OF _ _ r [symmetric]] True r b' show ?thesis by (simp add: put_shape)
    qed
  next
    case False
    with 2(3) show ?thesis by auto
  qed
qed

lemma writeRows_props:
  "length board = length rows \<Longrightarrow> distinct board \<Longrightarrow> list_all (\<lambda>a. a < length h) board \<Longrightarrow>
   length (writeRows h board rows) = length h \<and>
   (\<forall>i < length board. writeRows h board rows ! (board ! i) = rows ! i) \<and>
   (\<forall>a. a \<notin> set board \<longrightarrow> writeRows h board rows ! a = h ! a)"
proof (induction board arbitrary: rows h)
  case Nil
  then show ?case by (simp add: writeRows_def)
next
  case (Cons a board)
  then obtain row rows' where rows: "rows = row # rows'" by (cases rows) auto
  have step: "writeRows h (a # board) rows = writeRows (h[a := row]) board rows'"
    by (simp add: writeRows_def rows)
  from Cons.prems rows have p: "length board = length rows'" "distinct board"
    "list_all (\<lambda>x. x < length (h[a := row])) board" "a \<notin> set board" "a < length h"
    by auto
  note IH = Cons.IH [OF p(1-3)]
  show ?case
  proof (intro conjI allI impI)
    show "length (writeRows h (a # board) rows) = length h" using IH step by simp
  next
    fix i assume "i < length (a # board)"
    then show "writeRows h (a # board) rows ! ((a # board) ! i) = rows ! i"
      using IH step p(4,5) rows by (cases i) auto
  next
    fix b assume "b \<notin> set (a # board)"
    then show "writeRows h (a # board) rows ! b = h ! b"
      using IH step by auto
  qed
qed

lemma deref_append_fresh: "deref (h @ rows) [length h..<length h + length rows] = rows"
  by (rule nth_equalityI) (simp_all add: deref_def nth_append)

text \<open>
  C6. \<^verbatim>\<open>solveSudoku\<close> leaves the board of its caller as it was, whether it returns a
  solution or \<^verbatim>\<open>null\<close>: every row that existed before the call is unchanged after it
  (the search has written only to the rows of the copy), so the caller's board reads
  the same; the result is the one that the search computes from the contents of the
  caller's board.
\<close>

theorem solveSudoku_leaves_caller_board:
  assumes "list_all (\<lambda>a. a < length h) board"
  shows "case heap_solveSudoku h board of
           (result, h') \<Rightarrow>
             take (length h) h' = h \<and> deref h' board = deref h board \<and>
             map_option (deref h') result = solveSudoku (deref h board)"
proof -
  let ?g = "deref h board"
  let ?sol = "[length h..<length h + length board]"
  let ?h1 = "h @ ?g"
  obtain found rows where sb: "solveBacktrack ?g = (found, rows)" by (cases "solveBacktrack ?g")
  have lg: "length ?g = length board" by (simp add: deref_def)
  have d1: "deref ?h1 ?sol = ?g" using deref_append_fresh [of h ?g] lg by simp
  have lr: "length rows = length board"
    using solve_shape(1) [of ?g] sb lg by (metis length_map snd_conv)
  let ?h2 = "writeRows ?h1 ?sol rows"
  have wr: "length ?h2 = length ?h1"
    "\<forall>i < length ?sol. ?h2 ! (?sol ! i) = rows ! i"
    "\<forall>a. a \<notin> set ?sol \<longrightarrow> ?h2 ! a = ?h1 ! a"
    using writeRows_props [of ?sol rows ?h1] lr lg by (simp_all add: list_all_iff)
  have low: "a < length h \<Longrightarrow> ?h2 ! a = h ! a" for a
    using wr(3) by (simp add: nth_append)
  have frame: "take (length h) ?h2 = h"
    by (rule nth_equalityI) (use wr(1) low in simp_all)
  have board: "deref ?h2 board = ?g"
    using assms low by (simp add: deref_def list_all_iff)
  have sol: "deref ?h2 ?sol = rows"
    by (rule nth_equalityI) (use wr(2) lr in \<open>simp_all add: deref_def\<close>)
  have res: "heap_solveSudoku h board = ((if found then Some ?sol else None), ?h2)"
    by (simp add: heap_solveSudoku_def copyBoard_def heap_solveBacktrack_def d1 sb)
  show ?thesis
    unfolding res using frame board sol sb by (simp add: solveSudoku_def)
qed


lemma solve_nearlySolved_eval:
  "heap_solveSudoku exampleHeap [0..<9] = (Some [18..<27], exampleHeap @ emptyFirst)"
  by code_simp

lemma solve_stuckBoard_eval:
  "heap_solveSudoku exampleHeap [9..<18] = (None, exampleHeap @ stuckBoard)"
  by code_simp

theorem solveSudoku_leaves_caller_board_witness:
  "list_all (\<lambda>a. a < length exampleHeap) [0..<9] \<and>
   fst (heap_solveSudoku exampleHeap [0..<9]) = Some [18..<27] \<and>
   deref (snd (heap_solveSudoku exampleHeap [0..<9])) [0..<9] = deref exampleHeap [0..<9] \<and>
   solveSudoku (deref exampleHeap [0..<9]) = Some emptyFirst \<and>
   list_all (\<lambda>a. a < length exampleHeap) [9..<18] \<and>
   fst (heap_solveSudoku exampleHeap [9..<18]) = None \<and>
   deref (snd (heap_solveSudoku exampleHeap [9..<18])) [9..<18] = deref exampleHeap [9..<18] \<and>
   solveSudoku (deref exampleHeap [9..<18]) = None"
proof -
  have len: "length exampleHeap = 18"
    by (simp add: exampleHeap_def nearlySolved_def stuckBoard_def emptyFirst_def emptyGrid_def put_def)
  have a: "list_all (\<lambda>a. a < length exampleHeap) [0..<9]"
    and b: "list_all (\<lambda>a. a < length exampleHeap) [9..<18]"
    by (simp_all add: len list_all_iff)
  have d: "deref (exampleHeap @ emptyFirst) [18..<27] = emptyFirst"
    using deref_append_fresh [of exampleHeap emptyFirst] by (simp add: len emptyFirst_def)
  have A: "deref (exampleHeap @ emptyFirst) [0..<9] = deref exampleHeap [0..<9] \<and>
      map_option (deref (exampleHeap @ emptyFirst)) (Some [18..<27]) = solveSudoku (deref exampleHeap [0..<9])"
    using solveSudoku_leaves_caller_board [OF a] unfolding solve_nearlySolved_eval prod.case by blast
  have B: "deref (exampleHeap @ stuckBoard) [9..<18] = deref exampleHeap [9..<18] \<and>
      map_option (deref (exampleHeap @ stuckBoard)) None = solveSudoku (deref exampleHeap [9..<18])"
    using solveSudoku_leaves_caller_board [OF b] unfolding solve_stuckBoard_eval prod.case by blast
  show ?thesis
    unfolding solve_nearlySolved_eval solve_stuckBoard_eval fst_conv snd_conv
    using A B a b d by simp
qed

section \<open>The fingerprint\<close>

declare natToString.simps [simp del]

lemma toInt32_cong: "a mod 2 ^ 32 = b mod 2 ^ 32 \<Longrightarrow> toInt32 a = toInt32 b"
proof -
  assume "a mod 2 ^ 32 = b mod 2 ^ 32"
  then have "(a + 2 ^ 31) mod 2 ^ 32 = (b + 2 ^ 31) mod 2 ^ 32"
    by (rule mod_add_cong) (rule refl)
  then show ?thesis unfolding toInt32_def by (rule arg_cong)
qed

lemma toInt32_mod: "toInt32 a mod 2 ^ 32 = a mod 2 ^ 32"
proof -
  have "((a + 2 ^ 31) mod 2 ^ 32 - 2 ^ 31) mod 2 ^ 32 = (a + 2 ^ 31 - 2 ^ 31) mod 2 ^ 32"
    by (rule mod_diff_left_eq)
  then show ?thesis unfolding toInt32_def by (simp only: add_diff_cancel)
qed

lemma hashStep_eq: "hashStep h c = toInt32 (h * 31 + charCode c)"
proof -
  have 1: "toInt32 h mod 2 ^ 32 = h mod 2 ^ 32" by (rule toInt32_mod)
  have 2: "(toInt32 h * 2 ^ 5) mod 2 ^ 32 = (h * 2 ^ 5) mod 2 ^ 32"
    by (rule mod_mult_cong [OF 1 refl])
  have 3: "toInt32 (toInt32 h * 2 ^ 5) mod 2 ^ 32 = (h * 2 ^ 5) mod 2 ^ 32"
    using toInt32_mod [of "toInt32 h * 2 ^ 5"] 2 by (rule trans)
  have 4: "(toInt32 (toInt32 h * 2 ^ 5) - h) mod 2 ^ 32 = (h * 2 ^ 5 - h) mod 2 ^ 32"
    by (rule mod_diff_cong [OF 3 refl])
  have 5: "(toInt32 (toInt32 h * 2 ^ 5) - h + charCode c) mod 2 ^ 32 = (h * 2 ^ 5 - h + charCode c) mod 2 ^ 32"
    by (rule mod_add_cong [OF 4 refl])
  have 6: "h * 2 ^ 5 - h + charCode c = h * 31 + charCode c" by simp
  have "toInt32 (toInt32 (toInt32 h * 2 ^ 5) - h + charCode c) = toInt32 (h * 31 + charCode c)"
    by (rule toInt32_cong) (use 5 6 in \<open>simp only:\<close>)
  then show ?thesis
    by (simp add: hashStep_def shiftLeft_def bitAnd_def Let_def)
qed

lemma toString_digit: "0 \<le> d \<Longrightarrow> d \<le> 9 \<Longrightarrow> toString d = [digitChar (nat d)]"
proof -
  assume "0 \<le> d" and "d \<le> 9"
  then have "nat d < 10" by linarith
  with \<open>0 \<le> d\<close> show ?thesis by (simp add: toString_def natToString.simps [of "nat d"])
qed

lemma length_concat_rows:
  "list_all (\<lambda>row. length row = n) xs \<Longrightarrow> length (concat xs) = n * length xs"
  by (induction xs) simp_all

lemma join_digits:
  "list_all (\<lambda>d. 0 \<le> d \<and> d \<le> 9) row \<Longrightarrow>
   concat (map toString row) = map (\<lambda>d. digitChar (nat d)) row"
  by (induction row) (simp_all add: toString_digit)

lemma boardString_digits:
  "list_all (list_all (\<lambda>d. 0 \<le> d \<and> d \<le> 9)) grid \<Longrightarrow>
   concat (map (\<lambda>row. concat (map toString row)) grid) = map (\<lambda>d. digitChar (nat d)) (concat grid)"
  by (induction grid) (simp_all add: join_digits)

lemma foldl_hashStep: "foldl hashStep h cs = foldl (\<lambda>h c. toInt32 (h * 31 + charCode c)) h cs"
  by (induction cs arbitrary: h) (simp_all add: hashStep_eq)

text \<open>
  C9. On a 9x9 board of digits 0..9, \<^verbatim>\<open>createPuzzleHash\<close> is the specification's
  fingerprint: the string it hashes is the 81 digits in row-major order, each step of
  its loop is \<open>h * 31 + charCode\<close> wrapped to 32 bits, and the result is printed in
  decimal. (Being a function of the board, it gives equal boards equal hashes.)
\<close>

theorem createPuzzleHash_is_fingerprint:
  assumes "wf_grid grid" and "list_all (list_all (\<lambda>d. 0 \<le> d \<and> d \<le> 9)) grid"
  shows "createPuzzleHash grid = fingerprint_spec grid \<and> length (concat grid) = 81"
proof -
  have "length (concat grid) = 81"
    using assms(1) length_concat_rows [of 9 grid] by (simp add: wf_grid_def)
  then show ?thesis
    using assms(2) by (simp add: createPuzzleHash_def fingerprint_spec_def boardString_digits foldl_hashStep)
qed


lemma toString_eval: "toString (- 585850712) = ''-585850712''"
  by (simp add: toString_def natToString.simps digitChar_def)

lemma boardString_sampleBoard_eval:
  "concat (map (\<lambda>row. concat (map toString row)) sampleBoard) =
   ''530070000600195000098000060800060003400803001700020006060000280000419005000080079''"
  by (simp add: sampleBoard_def toString_def natToString.simps digitChar_def)

lemma fold_sampleBoard_eval:
  "foldl hashStep 0
     ''530070000600195000098000060800060003400803001700020006060000280000419005000080079''
   = - 585850712"
  by (simp add: hashStep_eq toInt32_def charCode_def)

lemma hash_sampleBoard_eval: "createPuzzleHash sampleBoard = ''-585850712''"
  unfolding createPuzzleHash_def Let_def boardString_sampleBoard_eval fold_sampleBoard_eval
  by (rule toString_eval)

theorem createPuzzleHash_is_fingerprint_witness:
  "wf_grid sampleBoard \<and> list_all (list_all (\<lambda>d. 0 \<le> d \<and> d \<le> 9)) sampleBoard \<and>
   createPuzzleHash sampleBoard = fingerprint_spec sampleBoard \<and>
   fingerprint_spec sampleBoard = ''-585850712''"
proof -
  have w: "wf_grid sampleBoard" by (simp add: wf_grid_def sampleBoard_def)
  have d: "list_all (list_all (\<lambda>d. 0 \<le> d \<and> d \<le> 9)) sampleBoard" by (simp add: sampleBoard_def)
  from createPuzzleHash_is_fingerprint [OF w d] w d show ?thesis
    by (simp add: hash_sampleBoard_eval)
qed

section \<open>Counting the completions of the empty board\<close>

lemma count_empty_eval:
  "countSolutionsLimited emptyGrid [] 2 = (emptyGrid, [emptyFirst, emptySecond])"
  by code_simp

lemma validate_seededGrid: "validateSudoku seededGrid"
  by code_simp

text \<open>
  C7. On the empty 9x9 board with limit 2 the counter returns: it leaves the board
  empty and has collected exactly two completions. It has stopped there: the complete
  valid board \<open>seededGrid\<close> is a third completion of the empty board and is not among
  the collected ones.
\<close>

theorem count_empty_grid_limit_2:
  "countSolutionsLimited emptyGrid [] 2 = (emptyGrid, [emptyFirst, emptySecond]) \<and>
   length (snd (countSolutionsLimited emptyGrid [] 2)) = 2 \<and>
   validateSudoku seededGrid \<and>
   seededGrid \<notin> set (snd (countSolutionsLimited emptyGrid [] 2))"
  by (simp add: count_empty_eval validate_seededGrid) (simp add: seededGrid_def emptyFirst_def emptySecond_def)

theorem count_empty_grid_limit_2_witness:
  "length (snd (countSolutionsLimited emptyGrid [] 2)) = 2 \<and> \<not> hasUniqueSolution emptyGrid"
  using count_empty_grid_limit_2 by (simp add: hasUniqueSolution_def)


section \<open>The checks on an extracted board\<close>

lemma cell_put_other: "(r', c') \<noteq> (r, c) \<Longrightarrow> cell (put b r c v) r' c' = cell b r' c'"
  by (cases "r' = r") (auto simp: cell_def put_def)

lemma put_restore: "cell b r c = Some v \<Longrightarrow> put (put b r c w) r c v = b"
  by (simp add: put_put put_same)

lemma hasConflictsLoop_board: "snd (hasConflictsLoop b ps) = b"
proof (induction ps)
  case Nil
  then show ?case by simp
next
  case (Cons p ps)
  obtain r c where p: "p = (r, c)" by (cases p)
  show ?case using Cons.IH
    by (auto simp: p Let_def put_restore split: option.splits)
qed

lemma hasConflictsLoop_fst:
  "fst (hasConflictsLoop b ps) \<longleftrightarrow>
   list_ex (\<lambda>(r, c). case cell b r c of
                        None \<Rightarrow> False
                      | Some num \<Rightarrow> num \<noteq> 0 \<and> \<not> ocr_isValidMove (put b r c 0) r c num) ps"
proof (induction ps)
  case Nil
  then show ?case by simp
next
  case (Cons p ps)
  obtain r c where p: "p = (r, c)" by (cases p)
  show ?case using Cons.IH
    by (auto simp: p Let_def put_restore split: option.splits)
qed

lemma positions_set: "set positions = {(r, c). r < 9 \<and> c < 9}"
  by (auto simp: positions_def)

lemma in_box: "r' div 3 = r div 3 \<Longrightarrow> (r div 3) * 3 \<le> r' \<and> r' < (r div 3) * 3 + (3::nat)"
  by presburger

lemma ocr_isValidMove_seen:
  assumes "r' < 9" "c' < 9" "cell b r' c' = Some num"
    and "r = r' \<or> c = c' \<or> (r div 3 = r' div 3 \<and> c div 3 = c' div 3)"
  shows "\<not> ocr_isValidMove b r c num"
proof -
  from assms(4) consider (row) "r = r'" | (col) "c = c'" | (box) "r' div 3 = r div 3" "c' div 3 = c div 3"
    by auto
  then show ?thesis
  proof cases
    case row
    then have "\<not> list_all (\<lambda>x. cell b r x \<noteq> Some num) [0..<9]"
      using assms(2,3) by (auto simp: list_all_iff)
    then show ?thesis by (simp add: ocr_isValidMove_def)
  next
    case col
    then have "\<not> list_all (\<lambda>x. cell b x c \<noteq> Some num) [0..<9]"
      using assms(1,3) by (auto simp: list_all_iff)
    then show ?thesis by (simp add: ocr_isValidMove_def)
  next
    case box
    from in_box [OF box(1)] in_box [OF box(2)]
    have "r' \<in> set [(r div 3) * 3..<(r div 3) * 3 + 3]" "c' \<in> set [(c div 3) * 3..<(c div 3) * 3 + 3]"
      by simp_all
    then have "\<not> list_all (\<lambda>i. list_all (\<lambda>j. cell b i j \<noteq> Some num)
        [(c div 3) * 3..<(c div 3) * 3 + 3]) [(r div 3) * 3..<(r div 3) * 3 + 3]"
      using assms(3) unfolding list_all_iff by blast
    then show ?thesis by (simp add: ocr_isValidMove_def Let_def)
  qed
qed

lemma hasConflicts_duplicate:
  assumes "r < 9" "c < 9" "r' < 9" "c' < 9" "(r, c) \<noteq> (r', c')"
    and "r = r' \<or> c = c' \<or> (r div 3 = r' div 3 \<and> c div 3 = c' div 3)"
    and "cell board r c = Some v" "cell board r' c' = Some v" "v \<noteq> 0"
  shows "hasConflicts board = (True, board)"
proof -
  have "cell (put board r c 0) r' c' = Some v"
    using assms(5,8) cell_put_other [of r' c' r c board 0] by auto
  then have "\<not> ocr_isValidMove (put board r c 0) r c v"
    using ocr_isValidMove_seen [OF assms(3,4) _ assms(6)] by simp
  moreover have "(r, c) \<in> set positions" using assms(1,2) by (simp add: positions_set)
  ultimately have "fst (hasConflictsLoop board positions)"
    unfolding hasConflictsLoop_fst list_ex_iff using assms(7,9) by force
  then show ?thesis
    unfolding hasConflicts_def using hasConflictsLoop_board [of board positions]
    by (cases "hasConflictsLoop board positions") simp
qed

lemma cell_list_all: "list_all (list_all P) b \<Longrightarrow> cell b r c = Some v \<Longrightarrow> P v"
  by (auto simp: cell_def list_all_length split: if_splits)

lemma digits_no_invalid_number:
  assumes "list_all (list_all (\<lambda>d. 0 \<le> d \<and> d \<le> 9)) board"
  shows "\<not> list_ex (\<lambda>(row, col). case cell board row col of None \<Rightarrow> False | Some c \<Rightarrow> c < 0 \<or> c > 9) ps"
proof -
  have "\<not> (c < 0 \<or> c > 9)" if "cell board row col = Some c" for row col c
    using cell_list_all [OF assms that] by simp
  then show ?thesis
    unfolding list_ex_iff by (auto split: option.splits)
qed

text \<open>
  C8. A 9x9 board that holds the same non-zero value twice in a row, a column or a box
  is rejected, and \<^verbatim>\<open>solveSudoku\<close> is not called for it: \<^verbatim>\<open>hasConflicts\<close>, which
  tests every filled cell with the cell itself emptied, answers true before the solver
  is reached (or the number check has already rejected the board, when it holds a
  value outside 0..9). On a board of digits 0..9 the message is the one about
  conflicts. The store of hashes is not touched.
\<close>

theorem conflicting_board_rejected_before_solver:
  assumes "wf_grid board"
    and "r < 9" "c < 9" "r' < 9" "c' < 9" "(r, c) \<noteq> (r', c')"
    and "r = r' \<or> c = c' \<or> (r div 3 = r' div 3 \<and> c div 3 = c' div 3)"
    and "cell board r c = Some v" "cell board r' c' = Some v" "v \<noteq> 0"
  shows "case validateExtractedPuzzle localStorage board of
           (result, localStorage', calls) \<Rightarrow>
             \<not> isValid result \<and> Call_solveSudoku \<notin> set calls \<and> localStorage' = localStorage \<and>
             (message result = ContainsConflicts \<and> calls = [Call_hasConflicts]
              \<or> message result = InvalidNumbers \<and> calls = []) \<and>
             (list_all (list_all (\<lambda>d. 0 \<le> d \<and> d \<le> 9)) board
                \<longrightarrow> message result = ContainsConflicts)"
proof -
  have hc: "hasConflicts board = (True, board)"
    by (rule hasConflicts_duplicate [OF assms(2-10)])
  have st: "\<not> (length board \<noteq> 9 \<or> \<not> list_all (\<lambda>row. length row = 9) board)"
    using assms(1) by (simp add: wf_grid_def)
  note nums = digits_no_invalid_number [of board positions]
  show ?thesis
    unfolding validateExtractedPuzzle_def using st hc nums by (auto simp: Let_def)
qed

theorem conflicting_board_rejected_before_solver_witness:
  "wf_grid twoFives \<and> cell twoFives 0 0 = Some 5 \<and> cell twoFives 0 2 = Some 5 \<and>
   \<not> isValid (fst (validateExtractedPuzzle (Some []) twoFives)) \<and>
   message (fst (validateExtractedPuzzle (Some []) twoFives)) = ContainsConflicts \<and>
   snd (snd (validateExtractedPuzzle (Some []) twoFives)) = [Call_hasConflicts]"
proof -
  have w: "wf_grid twoFives" by (simp add: wf_grid_def twoFives_def sampleBoard_def put_def)
  have a: "cell twoFives 0 0 = Some 5" and b: "cell twoFives 0 2 = Some 5"
    by (simp_all add: twoFives_def sampleBoard_def put_def cell_def)
  have d: "list_all (list_all (\<lambda>d. 0 \<le> d \<and> d \<le> 9)) twoFives"
    by (simp add: twoFives_def sampleBoard_def put_def)
  from conflicting_board_rejected_before_solver [OF w, of 0 0 0 2 5 "Some []"] a b d
  have "\<not> isValid (fst (validateExtractedPuzzle (Some []) twoFives)) \<and>
    message (fst (validateExtractedPuzzle (Some []) twoFives)) = ContainsConflicts \<and>
    snd (snd (validateExtractedPuzzle (Some []) twoFives)) = [Call_hasConflicts]"
    by (auto simp: split_beta)
  with w a b show ?thesis by simp
qed

lemma hasConflicts_board: "snd (hasConflicts board) = board"
  by (simp add: hasConflicts_def hasConflictsLoop_board)

text \<open>
  C10. For a 9x9 board of digits 0..9 without conflicts that the solver can complete,
  \<^verbatim>\<open>validateExtractedPuzzle\<close> answers that the board is valid and does not have several
  solutions, whatever the number of its completions: the counter it asks is the stub
  that returns 1.
\<close>

theorem stub_counter_reports_unique:
  assumes "wf_grid board"
    and "list_all (list_all (\<lambda>d. 0 \<le> d \<and> d \<le> 9)) board"
    and "\<not> fst (hasConflicts board)"
    and "solveSudoku board = Some solution"
  shows "case validateExtractedPuzzle localStorage board of
           (result, localStorage', calls) \<Rightarrow>
             hasMultipleSolutions result = False \<and> isValid result \<and>
             message result = UniqueSolution \<and> resultSolution result = Some solution \<and>
             ocr_countSolutions board = 1"
proof -
  have st: "\<not> (length board \<noteq> 9 \<or> \<not> list_all (\<lambda>row. length row = 9) board)"
    using assms(1) by (simp add: wf_grid_def)
  have hc: "hasConflicts board = (False, board)"
    using assms(3) hasConflicts_board [of board] by (cases "hasConflicts board") simp
  show ?thesis
    unfolding validateExtractedPuzzle_def
    using st hc digits_no_invalid_number [OF assms(2), of positions] assms(4)
    by (simp add: Let_def ocr_countSolutions_def split: prod.splits)
qed


lemma solve_empty_eval: "solveBacktrack emptyGrid = (True, emptyFirst)"
  by code_simp

lemma conflicts_empty_eval: "hasConflicts emptyGrid = (False, emptyGrid)"
  by code_simp

theorem stub_counter_reports_unique_witness:
  "wf_grid emptyGrid \<and> list_all (list_all (\<lambda>d. 0 \<le> d \<and> d \<le> 9)) emptyGrid \<and>
   \<not> fst (hasConflicts emptyGrid) \<and> solveSudoku emptyGrid = Some emptyFirst \<and>
   length (snd (countSolutionsLimited emptyGrid [] 2)) = 2 \<and>
   hasMultipleSolutions (fst (validateExtractedPuzzle (Some []) emptyGrid)) = False \<and>
   message (fst (validateExtractedPuzzle (Some []) emptyGrid)) = UniqueSolution"
proof -
  have w: "wf_grid emptyGrid" by (simp add: wf_grid_def emptyGrid_def list_all_iff)
  have d: "list_all (list_all (\<lambda>d. 0 \<le> d \<and> d \<le> 9)) emptyGrid"
    by (simp add: emptyGrid_def list_all_iff)
  have c: "\<not> fst (hasConflicts emptyGrid)" by (simp add: conflicts_empty_eval)
  have s: "solveSudoku emptyGrid = Some emptyFirst" by (simp add: solveSudoku_def solve_empty_eval)
  from stub_counter_reports_unique [OF w d c s, of "Some []"]
  have "hasMultipleSolutions (fst (validateExtractedPuzzle (Some []) emptyGrid)) = False \<and>
    message (fst (validateExtractedPuzzle (Some []) emptyGrid)) = UniqueSolution"
    by (auto simp: split_beta)
  with w d c s show ?thesis by (simp add: count_empty_eval)
qed


section \<open>The random source that never swaps\<close>

lemma noSwap_mod: "n < 8 \<Longrightarrow> noSwap k mod (Suc n + 1) = Suc n"
proof -
  assume "n < 8"
  then consider "n = 0" | "n = 1" | "n = 2" | "n = 3" | "n = 4" | "n = 5" | "n = 6" | "n = 7"
    by linarith
  then show ?thesis by cases (simp_all add: noSwap_def, presburger)
qed

lemma shuffleLoop_noSwap: "n \<le> 8 \<Longrightarrow> fst (shuffleLoop noSwap xs n k) = xs"
proof (induction n arbitrary: k)
  case 0
  then show ?case by simp
next
  case (Suc n)
  then have "n < 8" by simp
  from noSwap_mod [OF this] Suc show ?case by (simp add: Let_def)
qed

lemma shuffleArray_noSwap: "length xs \<le> 9 \<Longrightarrow> fst (shuffleArray noSwap xs k) = xs"
  unfolding shuffleArray_def by (rule shuffleLoop_noSwap) simp

lemma shuffle_digits_noSwap:
  "shuffleArray noSwap [1, 2, 3, 4, 5, 6, 7, 8, 9::int] k
   = ([1, 2, 3, 4, 5, 6, 7, 8, 9], snd (shuffleArray noSwap [1, 2, 3, 4, 5, 6, 7, 8, 9::int] k))"
  using shuffleArray_noSwap [of "[1, 2, 3, 4, 5, 6, 7, 8, 9::int]" k]
  by (cases "shuffleArray noSwap [1, 2, 3, 4, 5, 6, 7, 8, 9::int] k") simp

lemma fillBox_noSwap:
  "fst (fillBox noSwap board row col k) =
   foldl (\<lambda>b (i, j). put b (row + i) (col + j) ([1, 2, 3, 4, 5, 6, 7, 8, 9] ! (3 * i + j))) board
     (concat (map (\<lambda>i. map (\<lambda>j. (i, j)) [0..<3]) [0..<3]))"
  unfolding fillBox_def by (subst shuffle_digits_noSwap) simp

lemma diagonal_puts_eval:
  "put (put (put (put (put (put (put (put (put
     (put (put (put (put (put (put (put (put (put
       (put (put (put (put (put (put (put (put (put emptyGrid
          0 0 1) 0 1 2) 0 2 3) 1 0 4) 1 1 5) 1 2 6) 2 0 7) 2 1 8) 2 2 9)
          3 3 1) 3 4 2) 3 5 3) 4 3 4) 4 4 5) 4 5 6) 5 3 7) 5 4 8) 5 5 9)
          6 6 1) 6 7 2) 6 8 3) 7 6 4) 7 7 5) 7 8 6) 8 6 7) 8 7 8) 8 8 9
   = diagonalSeed"
  by code_simp

lemma fillDiagonalBoxes_noSwap: "fst (fillDiagonalBoxes noSwap emptyGrid k) = diagonalSeed"
proof -
  have upt3: "[0..<3] = [0, 1, 2]" by (simp add: upt_rec)
  obtain b1 k1 where 1: "fillBox noSwap emptyGrid 0 0 k = (b1, k1)" by (cases "fillBox noSwap emptyGrid 0 0 k")
  obtain b2 k2 where 2: "fillBox noSwap b1 3 3 k1 = (b2, k2)" by (cases "fillBox noSwap b1 3 3 k1")
  obtain b3 k3 where 3: "fillBox noSwap b2 6 6 k2 = (b3, k3)" by (cases "fillBox noSwap b2 6 6 k2")
  have "b1 = fst (fillBox noSwap emptyGrid 0 0 k)" using 1 by simp
  then have b1: "b1 = put (put (put (put (put (put (put (put (put emptyGrid 0 0 1) 0 1 2) 0 2 3) 1 0 4) 1 1 5) 1 2 6) 2 0 7) 2 1 8) 2 2 9"
    by (simp add: fillBox_noSwap upt3)
  have "b2 = fst (fillBox noSwap b1 3 3 k1)" using 2 by simp
  then have b2: "b2 = put (put (put (put (put (put (put (put (put b1 3 3 1) 3 4 2) 3 5 3) 4 3 4) 4 4 5) 4 5 6) 5 3 7) 5 4 8) 5 5 9"
    by (simp add: fillBox_noSwap upt3)
  have "b3 = fst (fillBox noSwap b2 6 6 k2)" using 3 by simp
  then have b3: "b3 = put (put (put (put (put (put (put (put (put b2 6 6 1) 6 7 2) 6 8 3) 7 6 4) 7 7 5) 7 8 6) 8 6 7) 8 7 8) 8 8 9"
    by (simp add: fillBox_noSwap upt3)
  have "fst (fillDiagonalBoxes noSwap emptyGrid k) = b3"
    by (simp add: fillDiagonalBoxes_def upt3 1 2 3)
  also have "b3 = diagonalSeed"
    unfolding b3 b2 b1 by (rule diagonal_puts_eval)
  finally show ?thesis .
qed

lemma digits_upto: "[1, 2, 3, 4, 5, 6, 7, 8, 9] = [1..9::int]"
  by (simp add: upto_rec1)

lemma fill_as_solve:
  "\<forall>k. fst (fillBoard noSwap board k) = fst (solveBacktrack board)
       \<and> fst (snd (fillBoard noSwap board k)) = snd (solveBacktrack board)"
  "\<forall>k. fst (fillNums noSwap b k row col [num..9]) = fst (solveNums b row col num)
       \<and> fst (snd (fillNums noSwap b k row col [num..9])) = snd (solveNums b row col num)"
proof (induction board and b row col num rule: solveBacktrack_solveNums.induct)
  case (1 board)
  show ?case
  proof (cases "findEmpty board")
    case None
    then show ?thesis by (simp add: fillBoard.simps solveBacktrack.simps)
  next
    case (Some p)
    obtain r c where p: "p = (r, c)" by (cases p)
    show ?thesis
    proof (intro allI)
      fix k
      obtain numbers k' where sh: "shuffleArray noSwap [1, 2, 3, 4, 5, 6, 7, 8, 9::int] k = (numbers, k')"
        by (cases "shuffleArray noSwap [1, 2, 3, 4, 5, 6, 7, 8, 9::int] k")
      with shuffle_digits_noSwap [of k] have n: "numbers = [1..9]" by (simp add: digits_upto)
      from 1 [OF Some p [symmetric]] have
        "fst (fillNums noSwap board k' r c [1..9]) = fst (solveNums board r c 1)
         \<and> fst (snd (fillNums noSwap board k' r c [1..9])) = snd (solveNums board r c 1)"
        by simp
      then show "fst (fillBoard noSwap board k) = fst (solveBacktrack board)
         \<and> fst (snd (fillBoard noSwap board k)) = snd (solveBacktrack board)"
        using Some p sh n
        by (simp add: fillBoard.simps [of noSwap board] solveBacktrack.simps [of board])
    qed
  qed
next
  case (2 board row col num)
  show ?case
  proof (cases "num \<le> 9")
    case False
    then show ?thesis by (simp add: solveNums.simps [of board row col num] fillNums.simps)
  next
    case le: True
    then have up: "[num..9] = num # [num + 1..9]" by (simp add: upto_rec1)
    show ?thesis
    proof (cases "isValidMove board row col num")
      case False
      with 2(3) [OF le False] le show ?thesis
        by (simp add: solveNums.simps [of board row col num] up fillNums.simps)
    next
      case True
      obtain ok b' where r: "solveBacktrack (put board row col num) = (ok, b')"
        by (cases "solveBacktrack (put board row col num)")
      show ?thesis
      proof (intro allI)
        fix k
        obtain ok2 b2 k2 where f: "fillBoard noSwap (put board row col num) k = (ok2, b2, k2)"
          by (cases "fillBoard noSwap (put board row col num) k") auto
        from 2(1) [OF le True] r f have e: "ok2 = ok" "b2 = b'" by (auto dest: spec [of _ k])
        show "fst (fillNums noSwap board k row col [num..9]) = fst (solveNums board row col num)
          \<and> fst (snd (fillNums noSwap board k row col [num..9])) = snd (solveNums board row col num)"
        proof (cases ok)
          case True
          with le \<open>isValidMove board row col num\<close> r f e show ?thesis
            by (simp add: solveNums.simps [of board row col num] up fillNums.simps)
        next
          case False
          from 2(2) [OF le True r [symmetric]] False
          have "fst (fillNums noSwap (put b' row col 0) k2 row col [num + 1..9])
              = fst (solveNums (put b' row col 0) row col (num + 1))
            \<and> fst (snd (fillNums noSwap (put b' row col 0) k2 row col [num + 1..9]))
              = snd (solveNums (put b' row col 0) row col (num + 1))"
            by simp
          with False le \<open>isValidMove board row col num\<close> r f e show ?thesis
            by (simp add: solveNums.simps [of board row col num] up fillNums.simps)
        qed
      qed
    qed
  qed
qed

lemma solve_seed_eval: "solveBacktrack diagonalSeed = (True, seededGrid)"
  by code_simp

lemma generateCompleteSudoku_noSwap: "fst (generateCompleteSudoku noSwap k) = seededGrid"
proof -
  obtain b1 k1 where d: "fillDiagonalBoxes noSwap (replicate 9 (replicate 9 0)) k = (b1, k1)"
    by (cases "fillDiagonalBoxes noSwap (replicate 9 (replicate 9 0)) k")
  then have b1: "b1 = diagonalSeed"
    using fillDiagonalBoxes_noSwap [of k] by (simp add: emptyGrid_def)
  obtain ok b2 k2 where f: "fillBoard noSwap b1 k1 = (ok, b2, k2)"
    by (cases "fillBoard noSwap b1 k1") auto
  with fill_as_solve(1) [of b1] b1 have "b2 = seededGrid"
    by (auto simp: solve_seed_eval dest: spec [of _ k1])
  then show ?thesis by (simp add: generateCompleteSudoku_def d f)
qed

section \<open>The removal loop and the puzzles that are returned\<close>

lemma put_restore0: "cell b r c = Some v \<Longrightarrow> put (put b r c 0) r c v = b"
  by (simp add: put_put put_same)

lemma removeLoop_shape: "map length (fst (removeLoop b ps t r)) = map length b"
proof (induction ps arbitrary: b r)
  case Nil
  then show ?case by simp
next
  case (Cons p ps)
  obtain row col where p: "p = (row, col)" by (cases p)
  show ?case
    using Cons.IH by (auto simp: p Let_def put_shape put_restore0 split: option.splits)
qed

lemma removeLoop_unique:
  "hasUniqueSolution b \<Longrightarrow> hasUniqueSolution (fst (removeLoop b ps t r))"
proof (induction ps arbitrary: b r)
  case Nil
  then show ?case by simp
next
  case (Cons p ps)
  obtain row col where p: "p = (row, col)" by (cases p)
  show ?case
    using Cons by (auto simp: p Let_def put_restore0 split: option.splits)
qed

lemma removeLoop_subset:
  "cell (fst (removeLoop b ps t r)) i j = Some v \<Longrightarrow> v \<noteq> 0 \<Longrightarrow> cell b i j = Some v"
proof (induction ps arbitrary: b r)
  case Nil
  then show ?case by simp
next
  case (Cons p ps)
  obtain row col where p: "p = (row, col)" by (cases p)
  show ?case
  proof (cases "r < t")
    case False
    with Cons.prems show ?thesis by (simp add: p)
  next
    case lt: True
    show ?thesis
    proof (cases "cell b row col")
      case None
      with Cons lt show ?thesis by (simp add: p)
    next
      case (Some orig)
      show ?thesis
      proof (cases "hasUniqueSolution (put b row col 0)")
        case False
        with Cons lt Some show ?thesis by (simp add: p Let_def put_restore0)
      next
        case True
        with Cons.prems lt Some have "cell (fst (removeLoop (put b row col 0) ps t (r + 1))) i j = Some v"
          by (simp add: p Let_def)
        from Cons.IH [OF this Cons.prems(2)] have c: "cell (put b row col 0) i j = Some v" .
        show ?thesis
        proof (cases "(i, j) = (row, col)")
          case True
          with c Some Cons.prems(2) show ?thesis by (simp add: cell_put_same)
        next
          case False
          with c show ?thesis by (simp add: cell_put_other)
        qed
      qed
    qed
  qed
qed





lemma generateLoop_result:
  assumes "generateLoop complete create unique now options k = Some p"
  shows "\<exists>k0. \<not> (ensureUnique options \<and>
                   \<not> unique (fst (create (fst (complete k0)) (clues options) (snd (complete k0))))) \<and>
              p = \<lparr>puzzleId = toString now,
                     puzzleBoard = fst (create (fst (complete k0)) (clues options) (snd (complete k0))),
                     puzzleSolution = fst (complete k0),
                     puzzleDifficulty = difficulty options, puzzleClues = clues options\<rparr>"
proof (rule generateLoop.raw_induct [where P = "\<lambda>complete create unique now options k p.
    \<exists>k0. \<not> (ensureUnique options \<and>
                   \<not> unique (fst (create (fst (complete k0)) (clues options) (snd (complete k0))))) \<and>
              p = \<lparr>puzzleId = toString now,
                     puzzleBoard = fst (create (fst (complete k0)) (clues options) (snd (complete k0))),
                     puzzleSolution = fst (complete k0),
                     puzzleDifficulty = difficulty options, puzzleClues = clues options\<rparr>", OF _ assms])
  fix loop :: "(nat \<Rightarrow> grid \<times> nat) \<Rightarrow> (grid \<Rightarrow> int \<Rightarrow> nat \<Rightarrow> grid \<times> nat) \<Rightarrow> (grid \<Rightarrow> bool) \<Rightarrow>
      int \<Rightarrow> GenerationOptions \<Rightarrow> nat \<Rightarrow> Puzzle option"
    and complete create unique now options k p
  assume IH: "\<And>complete create unique now options k p. loop complete create unique now options k = Some p \<Longrightarrow>
      \<exists>k0. \<not> (ensureUnique options \<and>
                   \<not> unique (fst (create (fst (complete k0)) (clues options) (snd (complete k0))))) \<and>
              p = \<lparr>puzzleId = toString now,
                     puzzleBoard = fst (create (fst (complete k0)) (clues options) (snd (complete k0))),
                     puzzleSolution = fst (complete k0),
                     puzzleDifficulty = difficulty options, puzzleClues = clues options\<rparr>"
    and step: "(case complete k of (solution, k1) \<Rightarrow>
      case create solution (clues options) k1 of (board, k2) \<Rightarrow>
        if ensureUnique options \<and> \<not> unique board
        then loop complete create unique now options k2
        else Some \<lparr>puzzleId = toString now, puzzleBoard = board, puzzleSolution = solution,
                   puzzleDifficulty = difficulty options, puzzleClues = clues options\<rparr>) = Some p"
  obtain solution k1 where c: "complete k = (solution, k1)" by (cases "complete k")
  obtain board k2 where b: "create solution (clues options) k1 = (board, k2)"
    by (cases "create solution (clues options) k1")
  show "\<exists>k0. \<not> (ensureUnique options \<and>
                   \<not> unique (fst (create (fst (complete k0)) (clues options) (snd (complete k0))))) \<and>
              p = \<lparr>puzzleId = toString now,
                     puzzleBoard = fst (create (fst (complete k0)) (clues options) (snd (complete k0))),
                     puzzleSolution = fst (complete k0),
                     puzzleDifficulty = difficulty options, puzzleClues = clues options\<rparr>"
  proof (cases "ensureUnique options \<and> \<not> unique board")
    case True
    with step c b have "loop complete create unique now options k2 = Some p" by simp
    from IH [OF this] show ?thesis .
  next
    case False
    with step c b have "p = \<lparr>puzzleId = toString now, puzzleBoard = board, puzzleSolution = solution,
                      puzzleDifficulty = difficulty options, puzzleClues = clues options\<rparr>"
      by auto
    with False c b show ?thesis by (intro exI [of _ k]) simp
  qed
qed

lemma generateSudoku_result:
  assumes "generateSudoku rnd now options k = Some p"
  shows "\<exists>k0. puzzleSolution p = fst (generateCompleteSudoku rnd k0) \<and>
           puzzleBoard p = fst (removeLoop (puzzleSolution p) positions (81 - clues options) 0) \<and>
           puzzleClues p = clues options \<and> puzzleDifficulty p = difficulty options \<and>
           (ensureUnique options \<longrightarrow> hasUniqueSolution (puzzleBoard p))"
proof -
  from generateLoop_result [OF assms [unfolded generateSudoku_def]]
  show ?thesis
    by (auto simp: createPuzzleFromSolution_def Let_def)
qed

lemma unique_seeded_eval: "hasUniqueSolution seededGrid"
  by code_simp


lemma shape_seeded_eval: "map length seededGrid = map length emptyGrid"
  by code_simp



lemma generateSudoku_noSwap:
  "generateSudoku noSwap now options k =
     Some \<lparr>puzzleId = toString now,
           puzzleBoard = fst (removeLoop seededGrid positions (81 - clues options) 0),
           puzzleSolution = seededGrid,
           puzzleDifficulty = difficulty options, puzzleClues = clues options\<rparr>"
proof -
  obtain k1 where c: "generateCompleteSudoku noSwap k = (seededGrid, k1)"
    using generateCompleteSudoku_noSwap [of k] by (cases "generateCompleteSudoku noSwap k") simp
  obtain board k2 where b: "createPuzzleFromSolution noSwap seededGrid (clues options) k1 = (board, k2)"
    by (cases "createPuzzleFromSolution noSwap seededGrid (clues options) k1")
  then have board: "board = fst (removeLoop seededGrid positions (81 - clues options) 0)"
    by (auto simp: createPuzzleFromSolution_def Let_def)
  have "hasUniqueSolution board"
    unfolding board by (rule removeLoop_unique [OF unique_seeded_eval])
  then show ?thesis
    unfolding generateSudoku_def
    by (subst generateLoop.simps) (simp add: c b board)
qed



lemma unique_not_empty:
  assumes "hasUniqueSolution b" and "map length b = map length emptyGrid"
  shows "0 < clueCount b"
proof (rule ccontr)
  assume "\<not> 0 < clueCount b"
  then have z: "filter (\<lambda>v. v \<noteq> 0) (concat b) = []" by (simp add: clueCount_def)
  have "b = emptyGrid"
  proof (rule nth_equalityI)
    show "length b = length emptyGrid" using assms(2) by (metis length_map)
  next
    fix i assume i: "i < length b"
    have "length (b ! i) = length (emptyGrid ! i)"
      using assms(2) i by (metis length_map nth_map)
    moreover have "\<forall>v \<in> set (b ! i). v = 0"
      using z i by (auto simp: filter_empty_conv)
    ultimately show "b ! i = emptyGrid ! i"
      using i assms(2)
      by (metis (no_types, lifting) emptyGrid_def length_map length_replicate nth_replicate replicate_eqI)
  qed
  with assms(1) count_empty_eval show False by (simp add: hasUniqueSolution_def)
qed

text \<open>
  C2. The \<^verbatim>\<open>clues\<close> field of the returned puzzle is the request's \<^verbatim>\<open>clues\<close>, not
  the number of non-zero cells of the board. Asked for 0 clues (with the random source
  that never swaps), \<^verbatim>\<open>generateSudoku\<close> returns a puzzle whose field \<^verbatim>\<open>clues\<close> is 0 and
  whose board still has clues: the board it returns passes the uniqueness test, which
  an empty board does not.
\<close>

theorem generated_clues_field_is_the_request:
  "\<exists>p. generateSudoku noSwap 0 options0 0 = Some p \<and> puzzleClues p = 0 \<and>
       0 < clueCount (puzzleBoard p) \<and> hasUniqueSolution (puzzleBoard p)"
proof -
  let ?b = "fst (removeLoop seededGrid positions (81 - clues options0) 0)"
  have u: "hasUniqueSolution ?b" by (rule removeLoop_unique [OF unique_seeded_eval])
  have "map length ?b = map length seededGrid" by (rule removeLoop_shape)
  also have "\<dots> = map length emptyGrid" by (rule shape_seeded_eval)
  finally have "0 < clueCount ?b" by (rule unique_not_empty [OF u])
  with u generateSudoku_noSwap [of 0 options0 0] show ?thesis by (simp add: options0_def)
qed

section \<open>Boards and their completions\<close>

subsection \<open>Peers\<close>

lemma box_range: "i \<in> set [(r div 3) * 3..<(r div 3) * 3 + 3] \<longleftrightarrow> i div 3 = r div (3::nat)"
proof
  assume "i \<in> set [(r div 3) * 3..<(r div 3) * 3 + 3]"
  then have "3 * (r div 3) \<le> i" "i < 3 * Suc (r div 3)" by simp_all
  then show "i div 3 = r div 3" by (rule div_nat_eqI)
next
  assume e: "i div 3 = r div 3"
  have "(i div 3) * 3 \<le> i" by (rule div_times_less_eq_dividend)
  moreover have "i < 3 + (i div 3) * 3" by (rule dividend_less_div_times) simp
  ultimately show "i \<in> set [(r div 3) * 3..<(r div 3) * 3 + 3]" using e by simp
qed

lemma isValidMove_peer:
  "isValidMove b r c num \<longleftrightarrow> (\<forall>r' c'. peer r c r' c' \<longrightarrow> cell b r' c' \<noteq> Some num)"
proof
  assume v: "isValidMove b r c num"
  show "\<forall>r' c'. peer r c r' c' \<longrightarrow> cell b r' c' \<noteq> Some num"
  proof (intro allI impI)
    fix r' c' assume "peer r c r' c'"
    then consider (row) "r' = r" "c' < 9" "c' \<noteq> c" | (col) "c' = c" "r' < 9" "r' \<noteq> r"
      | (box) "r' div 3 = r div 3" "c' div 3 = c div 3" "r' \<noteq> r \<or> c' \<noteq> c"
      unfolding peer_def by blast
    then show "cell b r' c' \<noteq> Some num"
    proof cases
      case row
      with v show ?thesis by (auto simp: isValidMove_def list_all_iff)
    next
      case col
      with v show ?thesis by (auto simp: isValidMove_def list_all_iff)
    next
      case box
      from box(1,2) have "r' \<in> set [(r div 3) * 3..<(r div 3) * 3 + 3]"
        "c' \<in> set [(c div 3) * 3..<(c div 3) * 3 + 3]"
        by (simp_all only: box_range)
      with v box(3) show ?thesis
        unfolding isValidMove_def Let_def list_all_iff by blast
    qed
  qed
next
  assume p: "\<forall>r' c'. peer r c r' c' \<longrightarrow> cell b r' c' \<noteq> Some num"
  have 1: "list_all (\<lambda>x. \<not> (x \<noteq> c \<and> cell b r x = Some num)) [0..<9]"
    unfolding list_all_iff using p by (auto simp: peer_def)
  have 2: "list_all (\<lambda>x. \<not> (x \<noteq> r \<and> cell b x c = Some num)) [0..<9]"
    unfolding list_all_iff using p by (auto simp: peer_def)
  have 3: "list_all (\<lambda>i. list_all (\<lambda>j. \<not> ((i \<noteq> r \<or> j \<noteq> c) \<and> cell b i j = Some num))
      [(c div 3) * 3..<(c div 3) * 3 + 3]) [(r div 3) * 3..<(r div 3) * 3 + 3]"
    unfolding list_all_iff
  proof (intro ballI)
    fix i j assume "i \<in> set [(r div 3) * 3..<(r div 3) * 3 + 3]" "j \<in> set [(c div 3) * 3..<(c div 3) * 3 + 3]"
    then have d: "i div 3 = r div 3" "j div 3 = c div 3" by (simp_all only: box_range)
    show "\<not> ((i \<noteq> r \<or> j \<noteq> c) \<and> cell b i j = Some num)"
    proof
      assume a: "(i \<noteq> r \<or> j \<noteq> c) \<and> cell b i j = Some num"
      with d have "peer r c i j" by (simp add: peer_def)
      with p a show False by blast
    qed
  qed
  from 1 2 3 show "isValidMove b r c num" by (simp add: isValidMove_def Let_def)
qed

lemma peer_sym: "r < 9 \<Longrightarrow> c < 9 \<Longrightarrow> peer r c r' c' \<Longrightarrow> peer r' c' r c"
  unfolding peer_def by metis

lemma peer_irrefl: "\<not> peer r c r c"
  unfolding peer_def by blast

subsection \<open>Consistent boards and completions, cell by cell\<close>

lemma wf_cell: "wf_grid b \<Longrightarrow> cell b r c \<noteq> None \<longleftrightarrow> r < 9 \<and> c < 9"
  by (auto simp: wf_grid_def cell_def list_all_length)

lemma wf_grid_shape: "wf_grid b \<longleftrightarrow> map length b = replicate 9 9"
proof
  assume "wf_grid b"
  then show "map length b = replicate 9 9"
    by (intro nth_equalityI) (simp_all add: wf_grid_def list_all_length)
next
  assume a: "map length b = replicate 9 9"
  then have l: "length b = 9" by (metis length_map length_replicate)
  have "length (b ! n) = 9" if "n < 9" for n
  proof -
    from that l have "map length b ! n = length (b ! n)" by simp
    with a that show ?thesis by simp
  qed
  with l show "wf_grid b" by (simp add: wf_grid_def list_all_length)
qed

lemma wf_put: "wf_grid (put b r c v) = wf_grid b"
  by (simp add: wf_grid_shape put_shape)

lemma list_all_cells:
  "list_all (list_all P) b \<longleftrightarrow> (\<forall>r c v. cell b r c = Some v \<longrightarrow> P v)"
proof
  assume "list_all (list_all P) b"
  then show "\<forall>r c v. cell b r c = Some v \<longrightarrow> P v"
    by (auto simp: cell_def list_all_length split: if_splits)
next
  assume a: "\<forall>r c v. cell b r c = Some v \<longrightarrow> P v"
  show "list_all (list_all P) b"
    unfolding list_all_length
  proof (intro allI impI)
    fix r c assume "r < length b" "c < length (b ! r)"
    then have "cell b r c = Some (b ! r ! c)" by (simp add: cell_def)
    with a show "P (b ! r ! c)" by blast
  qed
qed

lemma consistent_iff:
  "consistent b \<longleftrightarrow>
     wf_grid b \<and> (\<forall>r c v. cell b r c = Some v \<longrightarrow> 0 \<le> v \<and> v \<le> 9) \<and>
     (\<forall>r c v. cell b r c = Some v \<longrightarrow> v \<noteq> 0 \<longrightarrow> isValidMove b r c v)"
proof (cases "wf_grid b")
  case False
  then show ?thesis by (simp add: consistent_def)
next
  case True
  have "list_all (\<lambda>(row, col). case cell b row col of None \<Rightarrow> False
          | Some v \<Rightarrow> v = 0 \<or> isValidMove b row col v) positions
      \<longleftrightarrow> (\<forall>r c v. cell b r c = Some v \<longrightarrow> v \<noteq> 0 \<longrightarrow> isValidMove b r c v)"
    (is "?L \<longleftrightarrow> ?R")
  proof
    assume l: ?L
    show ?R
    proof (intro allI impI)
      fix r c v assume c: "cell b r c = Some v" and "v \<noteq> 0"
      with wf_cell [OF True, of r c] have "(r, c) \<in> set positions" by (simp add: positions_set)
      with l c \<open>v \<noteq> 0\<close> show "isValidMove b r c v" by (auto simp: list_all_iff)
    qed
  next
    assume r: ?R
    show ?L
      unfolding list_all_iff
    proof (intro ballI)
      fix p assume "p \<in> set positions"
      then obtain row col where p: "p = (row, col)" "row < 9" "col < 9"
        by (auto simp: positions_set)
      with wf_cell [OF True, of row col] obtain v where "cell b row col = Some v" by auto
      with r p show "case p of (row, col) \<Rightarrow> case cell b row col of None \<Rightarrow> False
          | Some v \<Rightarrow> v = 0 \<or> isValidMove b row col v"
        by auto
    qed
  qed
  with True show ?thesis by (simp add: consistent_def list_all_cells)
qed

lemma validateSudoku_iff:
  "wf_grid g \<Longrightarrow>
   validateSudoku g \<longleftrightarrow> (\<forall>r c v. cell g r c = Some v \<longrightarrow> v \<noteq> 0 \<and> isValidMove g r c v)"
proof -
  assume w: "wf_grid g"
  show ?thesis
  proof
    assume l: "validateSudoku g"
    show "\<forall>r c v. cell g r c = Some v \<longrightarrow> v \<noteq> 0 \<and> isValidMove g r c v"
    proof (intro allI impI)
      fix r c v assume c: "cell g r c = Some v"
      with wf_cell [OF w, of r c] have "(r, c) \<in> set positions" by (simp add: positions_set)
      with l c show "v \<noteq> 0 \<and> isValidMove g r c v" by (auto simp: validateSudoku_def list_all_iff)
    qed
  next
    assume r: "\<forall>r c v. cell g r c = Some v \<longrightarrow> v \<noteq> 0 \<and> isValidMove g r c v"
    show "validateSudoku g"
      unfolding validateSudoku_def list_all_iff
    proof (intro ballI)
      fix p assume "p \<in> set positions"
      then obtain row col where p: "p = (row, col)" "row < 9" "col < 9"
        by (auto simp: positions_set)
      with wf_cell [OF w, of row col] obtain v where "cell g row col = Some v" by auto
      with r p show "case p of (row, col) \<Rightarrow> case cell g row col of None \<Rightarrow> False
          | Some v \<Rightarrow> v \<noteq> 0 \<and> isValidMove g row col v"
        by auto
    qed
  qed
qed

lemma extends_iff:
  assumes "wf_grid b" "wf_grid g"
  shows "list_all2 (list_all2 (\<lambda>x y. x = 0 \<or> y = x)) b g \<longleftrightarrow>
     (\<forall>r c v. cell b r c = Some v \<longrightarrow> v \<noteq> 0 \<longrightarrow> cell g r c = Some v)"
proof
  assume l: "list_all2 (list_all2 (\<lambda>x y. x = 0 \<or> y = x)) b g"
  show "\<forall>r c v. cell b r c = Some v \<longrightarrow> v \<noteq> 0 \<longrightarrow> cell g r c = Some v"
  proof (intro allI impI)
    fix r c v assume c: "cell b r c = Some v" and nz: "v \<noteq> 0"
    then have r: "r < length b" and cc: "c < length (b ! r)" and v: "b ! r ! c = v"
      by (auto simp: cell_def split: if_splits)
    from l r have "list_all2 (\<lambda>x y. x = 0 \<or> y = x) (b ! r) (g ! r)" and "r < length g"
      by (auto simp: list_all2_conv_all_nth)
    with cc v nz have "c < length (g ! r)" "g ! r ! c = v"
      by (auto simp: list_all2_conv_all_nth)
    with \<open>r < length g\<close> show "cell g r c = Some v" by (simp add: cell_def)
  qed
next
  assume r: "\<forall>r c v. cell b r c = Some v \<longrightarrow> v \<noteq> 0 \<longrightarrow> cell g r c = Some v"
  from assms have len: "length b = 9" "length g = 9"
    "\<And>i. i < 9 \<Longrightarrow> length (b ! i) = 9" "\<And>i. i < 9 \<Longrightarrow> length (g ! i) = 9"
    by (auto simp: wf_grid_def list_all_length)
  show "list_all2 (list_all2 (\<lambda>x y. x = 0 \<or> y = x)) b g"
    unfolding list_all2_conv_all_nth
  proof (intro conjI allI impI)
    show "length b = length g" using len by simp
  next
    fix i assume "i < length b"
    then show "length (b ! i) = length (g ! i)" using len by simp
  next
    fix i j assume i: "i < length b" and j: "j < length (b ! i)"
    then have "cell b i j = Some (b ! i ! j)" by (simp add: cell_def)
    with r have "b ! i ! j \<noteq> 0 \<Longrightarrow> cell g i j = Some (b ! i ! j)" by blast
    moreover from i j len have "i < length g" "j < length (g ! i)" by simp_all
    ultimately show "b ! i ! j = 0 \<or> g ! i ! j = b ! i ! j"
      by (cases "b ! i ! j = 0") (simp_all add: cell_def)
  qed
qed

lemma completion_iff:
  assumes "wf_grid b"
  shows "completion b g \<longleftrightarrow>
     wf_grid g \<and> (\<forall>r c v. cell g r c = Some v \<longrightarrow> 1 \<le> v \<and> v \<le> 9 \<and> isValidMove g r c v) \<and>
     (\<forall>r c v. cell b r c = Some v \<longrightarrow> v \<noteq> 0 \<longrightarrow> cell g r c = Some v)"
proof (cases "wf_grid g")
  case False
  then show ?thesis by (simp add: completion_def)
next
  case True
  have "(\<forall>r c v. cell g r c = Some v \<longrightarrow> 1 \<le> v \<and> v \<le> 9) \<and>
        (\<forall>r c v. cell g r c = Some v \<longrightarrow> v \<noteq> 0 \<and> isValidMove g r c v) \<longleftrightarrow>
        (\<forall>r c v. cell g r c = Some v \<longrightarrow> 1 \<le> v \<and> v \<le> 9 \<and> isValidMove g r c v)"
    (is "?A \<and> ?B \<longleftrightarrow> ?C")
  proof
    assume "?A \<and> ?B" then show ?C by blast
  next
    assume c: ?C
    have ?A using c by blast
    moreover have ?B
    proof (intro allI impI)
      fix r c' v assume "cell g r c' = Some v"
      with c have "1 \<le> v" "isValidMove g r c' v" by blast+
      then show "v \<noteq> 0 \<and> isValidMove g r c' v" by simp
    qed
    ultimately show "?A \<and> ?B" by blast
  qed
  then show ?thesis
    unfolding completion_def extends_iff [OF assms True] validateSudoku_iff [OF True] list_all_cells
    using True by blast
qed

lemma grid_eqI:
  assumes "wf_grid b" "wf_grid g" "\<And>r c. r < 9 \<Longrightarrow> c < 9 \<Longrightarrow> cell b r c = cell g r c"
  shows "b = g"
proof (rule nth_equalityI)
  show "length b = length g" using assms(1,2) by (simp add: wf_grid_def)
next
  fix i assume i: "i < length b"
  then have i9: "i < 9" using assms(1) by (simp add: wf_grid_def)
  from assms(1,2) i9 have l: "length (b ! i) = 9" "length (g ! i) = 9" "length g = 9" "length b = 9"
    by (auto simp: wf_grid_def list_all_length)
  show "b ! i = g ! i"
  proof (rule nth_equalityI)
    show "length (b ! i) = length (g ! i)" using l by simp
  next
    fix j assume "j < length (b ! i)"
    then have "j < 9" using l by simp
    from assms(3) [OF i9 this] show "b ! i ! j = g ! i ! j"
      using l i9 \<open>j < 9\<close> by (simp add: cell_def)
  qed
qed

subsection \<open>Placing a digit\<close>

lemma cell_put:
  "cell (put b r c v) r' c' =
     (if r' = r \<and> c' = c \<and> cell b r c \<noteq> None then Some v else cell b r' c')"
proof (cases "r' = r \<and> c' = c")
  case True
  then show ?thesis
    by (cases "cell b r c = None") (simp_all add: cell_put_same put_None)
next
  case False
  then have "(r', c') \<noteq> (r, c)" by blast
  from cell_put_other [OF this] False show ?thesis by auto
qed

lemma consistent_put:
  assumes "consistent b" "cell b r c = Some 0" "isValidMove b r c num" "1 \<le> num" "num \<le> 9"
  shows "consistent (put b r c num)"
proof -
  from assms(1) have w: "wf_grid b"
    and d: "\<And>r c v. cell b r c = Some v \<Longrightarrow> 0 \<le> v \<and> v \<le> 9"
    and v: "\<And>r c v. cell b r c = Some v \<Longrightarrow> v \<noteq> 0 \<Longrightarrow> isValidMove b r c v"
    unfolding consistent_iff by blast+
  from assms(2) wf_cell [OF w, of r c] have rc: "r < 9" "c < 9" by simp_all
  show ?thesis
    unfolding consistent_iff
  proof (intro conjI allI impI)
    show "wf_grid (put b r c num)" using w by (simp add: wf_put)
  next
    fix r' c' x assume "cell (put b r c num) r' c' = Some x"
    then show "0 \<le> x" "x \<le> 9" using d [of r' c' x] assms(4,5)
      by (auto simp: cell_put split: if_splits)
  next
    fix r' c' x assume c: "cell (put b r c num) r' c' = Some x" and nz: "x \<noteq> 0"
    show "isValidMove (put b r c num) r' c' x"
    proof (cases "r' = r \<and> c' = c")
      case True
      with c assms(2) have "x = num" by (simp add: cell_put)
      with assms(3) True show ?thesis
        unfolding isValidMove_peer by (auto simp: cell_put peer_irrefl)
    next
      case False
      with c have cb: "cell b r' c' = Some x" by (auto simp: cell_put split: if_splits)
      from v [OF cb nz] have vb: "\<forall>r'' c''. peer r' c' r'' c'' \<longrightarrow> cell b r'' c'' \<noteq> Some x"
        unfolding isValidMove_peer .
      from cb wf_cell [OF w, of r' c'] have b9: "r' < 9" "c' < 9" by simp_all
      show ?thesis
        unfolding isValidMove_peer
      proof (intro allI impI)
        fix r'' c'' assume p: "peer r' c' r'' c''"
        show "cell (put b r c num) r'' c'' \<noteq> Some x"
        proof (cases "r'' = r \<and> c'' = c")
          case True
          with p have "peer r' c' r c" by simp
          from peer_sym [OF b9 this] assms(3) have "cell b r' c' \<noteq> Some num"
            unfolding isValidMove_peer by blast
          with cb have "x \<noteq> num" by auto
          with True assms(2) show ?thesis by (simp add: cell_put)
        next
          case False
          with vb p show ?thesis by (auto simp: cell_put)
        qed
      qed
    qed
  qed
qed

lemma invalid_excludes:
  assumes "wf_grid b" "completion b g" "\<not> isValidMove b r c num" "num \<noteq> 0"
  shows "cell g r c \<noteq> Some num"
proof
  assume g: "cell g r c = Some num"
  from assms(2) have w: "wf_grid g"
    and v: "\<And>r c v. cell g r c = Some v \<Longrightarrow> isValidMove g r c v"
    and e: "\<And>r c v. cell b r c = Some v \<Longrightarrow> v \<noteq> 0 \<Longrightarrow> cell g r c = Some v"
    unfolding completion_iff [OF assms(1)] by blast+
  from assms(3) obtain r' c' where p: "peer r c r' c'" "cell b r' c' = Some num"
    unfolding isValidMove_peer by blast
  from e [OF p(2) assms(4)] have "cell g r' c' = Some num" .
  moreover from v [OF g] p(1) have "cell g r' c' \<noteq> Some num" unfolding isValidMove_peer by blast
  ultimately show False by blast
qed

lemma completion_put:
  assumes "wf_grid b" "cell b r c = Some 0" "num \<noteq> 0"
  shows "completion (put b r c num) g \<longleftrightarrow> completion b g \<and> cell g r c = Some num"
proof -
  have w: "wf_grid (put b r c num)" using assms(1) by (simp add: wf_put)
  have "(\<forall>r' c' v. cell (put b r c num) r' c' = Some v \<longrightarrow> v \<noteq> 0 \<longrightarrow> cell g r' c' = Some v)
    \<longleftrightarrow> (\<forall>r' c' v. cell b r' c' = Some v \<longrightarrow> v \<noteq> 0 \<longrightarrow> cell g r' c' = Some v) \<and> cell g r c = Some num"
    (is "?L \<longleftrightarrow> ?R \<and> ?C")
  proof
    assume l: ?L
    have ?R
    proof (intro allI impI)
      fix r' c' v assume a: "cell b r' c' = Some v" "v \<noteq> 0"
      with assms(2) have "\<not> (r' = r \<and> c' = c)" by auto
      with a have "cell (put b r c num) r' c' = Some v" by (auto simp: cell_put)
      with l a(2) show "cell g r' c' = Some v" by blast
    qed
    moreover from assms(2) have "cell (put b r c num) r c = Some num" by (simp add: cell_put)
    with l assms(3) have ?C by blast
    ultimately show "?R \<and> ?C" by blast
  next
    assume r: "?R \<and> ?C"
    show ?L
    proof (intro allI impI)
      fix r' c' v assume a: "cell (put b r c num) r' c' = Some v" "v \<noteq> 0"
      show "cell g r' c' = Some v"
      proof (cases "r' = r \<and> c' = c")
        case True
        with a assms(2) have "v = num" by (simp add: cell_put)
        with r True show ?thesis by simp
      next
        case False
        with a have "cell b r' c' = Some v" by (auto simp: cell_put split: if_splits)
        with r a(2) show ?thesis by blast
      qed
    qed
  qed
  then show ?thesis
    unfolding completion_iff [OF w] completion_iff [OF assms(1)] by blast
qed

lemma findEmpty_None: "findEmpty b = None \<longleftrightarrow> (\<forall>r<9. \<forall>c<9. cell b r c \<noteq> Some 0)"
  unfolding findEmpty_def find_None_iff positions_set by auto

lemma completion_full:
  assumes "consistent b" "findEmpty b = None"
  shows "completion b g \<longleftrightarrow> g = b"
proof -
  from assms(1) have w: "wf_grid b"
    and d: "\<And>r c v. cell b r c = Some v \<Longrightarrow> 0 \<le> v \<and> v \<le> 9"
    and v: "\<And>r c v. cell b r c = Some v \<Longrightarrow> v \<noteq> 0 \<Longrightarrow> isValidMove b r c v"
    unfolding consistent_iff by blast+
  have nz: "v \<noteq> 0" if "cell b r c = Some v" for r c v
  proof -
    from that wf_cell [OF w, of r c] have "r < 9" "c < 9" by simp_all
    with assms(2) that show ?thesis unfolding findEmpty_None by auto
  qed
  have self: "completion b b"
    unfolding completion_iff [OF w]
  proof (intro conjI allI impI)
    show "wf_grid b" by (rule w)
  next
    fix r c x assume c: "cell b r c = Some x"
    from nz [OF c] d [OF c] show "1 \<le> x" "x \<le> 9" by simp_all
    from v [OF c nz [OF c]] show "isValidMove b r c x" .
  next
    fix r c x assume "cell b r c = Some x"
    then show "cell b r c = Some x" .
  qed
  have "g = b" if c: "completion b g"
  proof -
    from c have wg: "wf_grid g"
      and e: "\<And>r c v. cell b r c = Some v \<Longrightarrow> v \<noteq> 0 \<Longrightarrow> cell g r c = Some v"
      unfolding completion_iff [OF w] by blast+
    show ?thesis
    proof (rule grid_eqI [OF wg w])
      fix r c :: nat assume "r < 9" "c < 9"
      with wf_cell [OF w, of r c] obtain x where x: "cell b r c = Some x" by auto
      from e [OF x nz [OF x]] x show "cell g r c = cell b r c" by simp
    qed
  qed
  with self show ?thesis by blast
qed

subsection \<open>What countSolutionsLimited collects\<close>

lemma collects_none: "(\<And>g. \<not> S g) \<Longrightarrow> collects sols lim sols S"
  unfolding collects_def by (intro exI [of _ "[]"]) simp

lemma collects_full: "lim \<le> length sols \<Longrightarrow> collects sols lim sols S"
  unfolding collects_def by (intro exI [of _ "[]"]) simp

lemma collects_single: "(\<And>g. S g \<longleftrightarrow> g = b) \<Longrightarrow> collects sols lim (sols @ [b]) S"
  unfolding collects_def by (intro exI [of _ "[b]"]) simp

lemma collects_cong: "collects sols lim res S \<Longrightarrow> (\<And>g. S g \<longleftrightarrow> S' g) \<Longrightarrow> collects sols lim res S'"
  unfolding collects_def by simp

lemma collects_stop:
  "collects sols lim res S1 \<Longrightarrow> lim \<le> length res \<Longrightarrow> (\<And>g. S1 g \<Longrightarrow> S g) \<Longrightarrow> collects sols lim res S"
  unfolding collects_def by (metis not_less)

lemma collects_seq:
  assumes "collects sols lim mid S1" "collects mid lim res S2" "\<And>g. S1 g \<Longrightarrow> S2 g \<Longrightarrow> False"
  shows "collects sols lim res (\<lambda>g. S1 g \<or> S2 g)"
proof -
  from assms(1) obtain n1 where 1: "mid = sols @ n1" "distinct n1" "\<forall>g \<in> set n1. S1 g"
    "length mid < lim \<longrightarrow> (\<forall>g. S1 g \<longrightarrow> g \<in> set n1)"
    unfolding collects_def by blast
  from assms(2) obtain n2 where 2: "res = mid @ n2" "distinct n2" "\<forall>g \<in> set n2. S2 g"
    "length res < lim \<longrightarrow> (\<forall>g. S2 g \<longrightarrow> g \<in> set n2)"
    unfolding collects_def by blast
  have d: "distinct (n1 @ n2)" using 1(2,3) 2(2,3) assms(3) by auto
  have s: "\<forall>g \<in> set (n1 @ n2). S1 g \<or> S2 g" using 1(3) 2(3) by auto
  have c: "\<forall>g. S1 g \<or> S2 g \<longrightarrow> g \<in> set (n1 @ n2)" if "length res < lim"
  proof -
    from that 2(1) have "length mid < lim" by simp
    with 1(4) 2(4) that show ?thesis by auto
  qed
  show ?thesis
    unfolding collects_def
    by (rule exI [of _ "n1 @ n2"]) (use 1(1) 2(1) d s c in simp)
qed

lemma completion_digit:
  assumes "wf_grid b" "completion b g" "cell b r c = Some x"
  shows "\<exists>v. cell g r c = Some v \<and> 1 \<le> v \<and> v \<le> 9"
proof -
  from assms(2) have w: "wf_grid g"
    and d: "\<And>r c v. cell g r c = Some v \<Longrightarrow> 1 \<le> v \<and> v \<le> 9"
    unfolding completion_iff [OF assms(1)] by blast+
  from assms(3) wf_cell [OF assms(1), of r c] wf_cell [OF w, of r c]
  obtain v where "cell g r c = Some v" by auto
  with d show ?thesis by blast
qed

lemma count_collects:
  "consistent board \<Longrightarrow>
     collects solutions limit (snd (countSolutionsLimited board solutions limit)) (completion board)"
  "consistent b \<Longrightarrow> cell b row col = Some 0 \<Longrightarrow> 1 \<le> num \<Longrightarrow>
     collects sols lim (snd (countNums b sols lim row col num))
       (\<lambda>g. completion b g \<and> (\<exists>v. cell g row col = Some v \<and> num \<le> v))"
proof (induction board solutions limit and b sols lim row col num
    rule: countSolutionsLimited_countNums.induct)
  case (1 board solutions limit)
  from 1(2) have w: "wf_grid board" by (simp add: consistent_def)
  show ?case
  proof (cases "limit \<le> length solutions")
    case True
    then show ?thesis
      by (simp add: countSolutionsLimited.simps [of board solutions limit] collects_full)
  next
    case False
    show ?thesis
    proof (cases "findEmpty board")
      case None
      with False show ?thesis
        by (simp add: countSolutionsLimited.simps [of board solutions limit] collects_single completion_full [OF 1(2) None])
    next
      case (Some p)
      obtain r c where p: "p = (r, c)" by (cases p)
      from Some p have z: "cell board r c = Some 0" by (simp add: findEmpty_cell)
      have "collects solutions limit (snd (countNums board solutions limit r c 1))
          (\<lambda>g. completion board g \<and> (\<exists>v. cell g r c = Some v \<and> 1 \<le> v))"
        using 1(1) [OF _ Some p [symmetric] 1(2) z] False by simp
      then have "collects solutions limit (snd (countNums board solutions limit r c 1)) (completion board)"
        by (rule collects_cong) (use completion_digit [OF w _ z] in blast)
      with False Some p show ?thesis by (simp add: countSolutionsLimited.simps [of board solutions limit])
    qed
  qed
next
  case (2 board solutions limit row col num)
  note cons = 2(4) and z = 2(5) and n1 = 2(6)
  from cons have w: "wf_grid board" by (simp add: consistent_def)
  let ?S = "\<lambda>n g. completion board g \<and> (\<exists>v. cell g row col = Some v \<and> n \<le> v)"
  show ?case
  proof (cases "num \<le> 9")
    case False
    have "\<not> ?S num g" for g
      using completion_digit [OF w _ z, of g] False by auto
    then have "collects solutions limit solutions (?S num)" by (rule collects_none)
    with False show ?thesis by (simp add: countNums.simps [of board solutions limit row col num])
  next
    case le: True
    show ?thesis
    proof (cases "isValidMove board row col num")
      case False
      have "collects solutions limit (snd (countNums board solutions limit row col (num + 1))) (?S (num + 1))"
        using 2(3) [OF le False cons z] n1 by simp
      moreover have "?S (num + 1) g \<longleftrightarrow> ?S num g" for g
      proof
        assume "?S (num + 1) g" then show "?S num g" by auto
      next
        assume a: "?S num g"
        then obtain v where v: "cell g row col = Some v" "num \<le> v" by blast
        from invalid_excludes [OF w _ False, of g] a n1 v have "v \<noteq> num" by auto
        with v a show "?S (num + 1) g" by auto
      qed
      ultimately have "collects solutions limit (snd (countNums board solutions limit row col (num + 1))) (?S num)"
        by (rule collects_cong)
      with le False show ?thesis by (simp add: countNums.simps [of board solutions limit row col num])
    next
      case True
      obtain b' s' where r: "countSolutionsLimited (put board row col num) solutions limit = (b', s')"
        by (cases "countSolutionsLimited (put board row col num) solutions limit")
      from count_restores(1) [of "put board row col num" solutions limit] r
      have b': "b' = put board row col num" by simp
      then have restored: "put b' row col 0 = board" using z by (simp add: put_put put_same)
      from n1 have nz: "num \<noteq> 0" by simp
      have c1: "consistent (put board row col num)"
        by (rule consistent_put [OF cons z True n1 le])
      have "collects solutions limit s' (completion (put board row col num))"
        using 2(1) [OF le True c1] r by simp
      then have first: "collects solutions limit s' (\<lambda>g. completion board g \<and> cell g row col = Some num)"
        by (rule collects_cong) (simp add: completion_put [OF w z nz])
      have parts: "?S num g \<longleftrightarrow> (completion board g \<and> cell g row col = Some num) \<or> ?S (num + 1) g" for g
        by auto
      show ?thesis
      proof (cases "limit \<le> length s'")
        case full: True
        have "collects solutions limit s' (?S num)"
          by (rule collects_stop [OF first full]) simp
        with le True r full show ?thesis by (simp add: countNums.simps [of board solutions limit row col num])
      next
        case more: False
        have "collects s' limit (snd (countNums (put b' row col 0) s' limit row col (num + 1))) 
            (\<lambda>g. completion (put b' row col 0) g \<and> (\<exists>v. cell g row col = Some v \<and> num + 1 \<le> v))"
          using 2(2) [OF le True r [symmetric] more] cons z n1 unfolding restored by simp
        then have second: "collects s' limit (snd (countNums board s' limit row col (num + 1))) (?S (num + 1))"
          unfolding restored .
        have "collects solutions limit (snd (countNums board s' limit row col (num + 1)))
            (\<lambda>g. (completion board g \<and> cell g row col = Some num) \<or> ?S (num + 1) g)"
          by (rule collects_seq [OF first second]) auto
        then have "collects solutions limit (snd (countNums board s' limit row col (num + 1))) (?S num)"
          by (rule collects_cong) (use parts in blast)
        with le True r more restored show ?thesis by (simp add: countNums.simps [of board solutions limit row col num])
      qed
    qed
  qed
qed

lemma unique_iff_one_completion:
  assumes "consistent b"
  shows "hasUniqueSolution b \<longleftrightarrow> (\<exists>!g. completion b g)"
proof -
  from count_collects(1) [OF assms, of "[]" 2]
  obtain new where n: "snd (countSolutionsLimited b [] 2) = [] @ new" "distinct new"
    "\<forall>g \<in> set new. completion b g"
    "length (snd (countSolutionsLimited b [] 2)) < 2 \<longrightarrow> (\<forall>g. completion b g \<longrightarrow> g \<in> set new)"
    unfolding collects_def by blast
  from n(1) have s: "snd (countSolutionsLimited b [] 2) = new" by simp
  have u: "hasUniqueSolution b \<longleftrightarrow> length new = 1"
    using s by (simp add: hasUniqueSolution_def split_beta)
  show ?thesis
  proof
    assume "hasUniqueSolution b"
    with u have l: "length new = 1" by simp
    then obtain g where g: "new = [g]" by (cases new) simp_all
    from n(3) g have 1: "completion b g" by simp
    from n(4) s g have 2: "h = g" if "completion b h" for h using that by simp
    from 1 2 show "\<exists>!g. completion b g" by blast
  next
    assume e: "\<exists>!g. completion b g"
    then obtain g where g: "completion b g" "\<And>h. completion b h \<Longrightarrow> h = g" by blast
    from n(3) g(2) have sub: "set new \<subseteq> {g}" by blast
    have "new \<noteq> []"
    proof
      assume "new = []"
      with n(4) s g(1) show False by simp
    qed
    then obtain x xs where new: "new = x # xs" by (cases new) simp_all
    with sub n(2) have "set xs \<subseteq> {g}" "x = g" "x \<notin> set xs" by simp_all
    then have "xs = []" by (cases xs) auto
    with new have "length new = 1" by simp
    with u show "hasUniqueSolution b" by simp
  qed
qed

subsection \<open>The searches and the removal loop keep a board consistent\<close>

lemma consistent_put0:
  assumes "consistent b"
  shows "consistent (put b r c 0)"
proof -
  from assms have w: "wf_grid b"
    and d: "\<And>r c v. cell b r c = Some v \<Longrightarrow> 0 \<le> v \<and> v \<le> 9"
    and v: "\<And>r c v. cell b r c = Some v \<Longrightarrow> v \<noteq> 0 \<Longrightarrow> isValidMove b r c v"
    unfolding consistent_iff by blast+
  show ?thesis
    unfolding consistent_iff
  proof (intro conjI allI impI)
    show "wf_grid (put b r c 0)" using w by (simp add: wf_put)
  next
    fix r' c' x assume "cell (put b r c 0) r' c' = Some x"
    then show "0 \<le> x" "x \<le> 9" using d [of r' c' x]
      by (auto simp: cell_put split: if_splits)
  next
    fix r' c' x assume c: "cell (put b r c 0) r' c' = Some x" and nz: "x \<noteq> 0"
    then have cb: "cell b r' c' = Some x" by (auto simp: cell_put split: if_splits)
    from v [OF cb nz] have vb: "\<forall>r'' c''. peer r' c' r'' c'' \<longrightarrow> cell b r'' c'' \<noteq> Some x"
      unfolding isValidMove_peer .
    show "isValidMove (put b r c 0) r' c' x"
      unfolding isValidMove_peer
    proof (intro allI impI)
      fix r'' c'' assume "peer r' c' r'' c''"
      with vb have "cell b r'' c'' \<noteq> Some x" by blast
      with nz show "cell (put b r c 0) r'' c'' \<noteq> Some x" by (simp add: cell_put)
    qed
  qed
qed

lemma removeLoop_consistent:
  "consistent b \<Longrightarrow> consistent (fst (removeLoop b ps t r))"
proof (induction ps arbitrary: b r)
  case Nil
  then show ?case by simp
next
  case (Cons p ps)
  obtain row col where p: "p = (row, col)" by (cases p)
  show ?case
  proof (cases "cell b row col")
    case None
    with Cons p show ?thesis by simp
  next
    case (Some v)
    from Cons.prems have 0: "consistent (put b row col 0)" by (rule consistent_put0)
    from Some have "put (put b row col 0) row col v = b" by (rule put_restore0)
    with Cons.IH [OF 0] Cons.IH [OF Cons.prems] Cons.prems Some p show ?thesis
      by (simp add: Let_def)
  qed
qed

lemma fill_consistent:
  "consistent board \<Longrightarrow> consistent (fst (snd (fillBoard rnd board k)))"
  "consistent b \<Longrightarrow> cell b row col = Some 0 \<Longrightarrow> set nums \<subseteq> {1..9} \<Longrightarrow>
     consistent (fst (snd (fillNums rnd' b k' row col nums)))"
proof (induction rnd board k and rnd' b k' row col nums rule: fillBoard_fillNums.induct)
  case (1 rnd board k)
  show ?case
  proof (cases "findEmpty board")
    case None
    with 1(2) show ?thesis by (simp add: fillBoard.simps [of rnd board k])
  next
    case (Some p)
    obtain r c where p: "p = (r, c)" by (cases p)
    from Some p have z: "cell board r c = Some 0" by (simp add: findEmpty_cell)
    obtain numbers k1 where s: "shuffleArray rnd [1, 2, 3, 4, 5, 6, 7, 8, 9::int] k = (numbers, k1)"
      by (cases "shuffleArray rnd [1, 2, 3, 4, 5, 6, 7, 8, 9::int] k")
    from shuffleArray_set [of rnd "[1, 2, 3, 4, 5, 6, 7, 8, 9::int]" k] s
    have "set numbers \<subseteq> {1..9}" by auto
    from 1(1) [OF Some p [symmetric] s [symmetric] 1(2) z this] Some p s
    show ?thesis by (simp add: fillBoard.simps [of rnd board k])
  qed
next
  case (2 rnd board k row col)
  then show ?case by (simp add: fillNums.simps(1))
next
  case (3 rnd board k row col num nums)
  note cons = 3(4) and z = 3(5)
  from 3(6) have n: "1 \<le> num" "num \<le> 9" and ns: "set nums \<subseteq> {1..9}" by auto
  show ?case
  proof (cases "isValidMove board row col num")
    case False
    with 3(3) [OF False cons z ns] show ?thesis
      by (simp add: fillNums.simps(2) [of rnd board k row col num nums])
  next
    case True
    obtain ok b' k1 where r: "fillBoard rnd (put board row col num) k = (ok, b', k1)"
      by (cases "fillBoard rnd (put board row col num) k")
    have c1: "consistent (put board row col num)"
      by (rule consistent_put [OF cons z True n])
    from 3(1) [OF True c1] r have cb: "consistent b'" by simp
    show ?thesis
    proof (cases ok)
      case True
      with \<open>isValidMove board row col num\<close> r cb show ?thesis
        by (simp add: fillNums.simps(2) [of rnd board k row col num nums])
    next
      case False
      from fill_restores(1) [of rnd "put board row col num" k] r False
      have "b' = put board row col num" by simp
      then have restored: "put b' row col 0 = board" using z by (simp add: put_put put_same)
      from 3(2) [OF True r [symmetric] _ refl] False cons z ns
      have "consistent (fst (snd (fillNums rnd (put b' row col 0) k1 row col nums)))"
        unfolding restored by simp
      with \<open>isValidMove board row col num\<close> r False show ?thesis
        by (simp add: fillNums.simps(2) [of rnd board k row col num nums])
    qed
  qed
qed

subsection \<open>The diagonal boxes\<close>

lemma cell_put_wf:
  "wf_grid b \<Longrightarrow> r < 9 \<Longrightarrow> c < 9 \<Longrightarrow>
   cell (put b r c v) r' c' = (if r' = r \<and> c' = c then Some v else cell b r' c')"
  using wf_cell [of b r c] by (simp add: cell_put)

lemma foldl_put_cell:
  assumes "wf_grid board" "\<forall>i j. (i, j) \<in> set ps \<longrightarrow> row + i < 9 \<and> col + j < 9"
  shows "wf_grid (foldl (\<lambda>b (i, j). put b (row + i) (col + j) (f i j)) board ps) \<and>
         cell (foldl (\<lambda>b (i, j). put b (row + i) (col + j) (f i j)) board ps) r c =
           (if (r - row, c - col) \<in> set ps \<and> row \<le> r \<and> col \<le> c then Some (f (r - row) (c - col))
            else cell board r c)"
  using assms
proof (induction ps arbitrary: board)
  case Nil
  then show ?case by simp
next
  case (Cons p ps)
  obtain i j where p: "p = (i, j)" by (cases p)
  from Cons.prems(2) p have ij: "row + i < 9" "col + j < 9" by simp_all
  have w: "wf_grid (put board (row + i) (col + j) (f i j))" using Cons.prems(1) by (simp add: wf_put)
  have rest: "\<forall>i j. (i, j) \<in> set ps \<longrightarrow> row + i < 9 \<and> col + j < 9"
    using Cons.prems(2) by simp
  note IH = Cons.IH [OF w rest]
  have here: "r = row + i \<and> c = col + j \<longleftrightarrow> (r - row, c - col) = (i, j) \<and> row \<le> r \<and> col \<le> c"
    by auto
  show ?case
  proof (cases "r = row + i \<and> c = col + j")
    case True
    with IH p show ?thesis
      by (simp add: cell_put_wf [OF Cons.prems(1) ij])
  next
    case False
    with here have "\<not> ((r - row, c - col) = (i, j) \<and> row \<le> r \<and> col \<le> c)" by blast
    with IH p False show ?thesis
      by (auto simp: cell_put_wf [OF Cons.prems(1) ij])
  qed
qed

lemma box_positions_set:
  "set (concat (map (\<lambda>i. map (\<lambda>j. (i, j)) [0..<3]) [0..<3])) = {(i, j). i < 3 \<and> j < (3::nat)}"
  by auto

lemma in_box_iff:
  "((r::nat) - br * 3 < 3 \<and> (c::nat) - bc * 3 < 3) \<and> br * 3 \<le> r \<and> bc * 3 \<le> c \<longleftrightarrow> r div 3 = br \<and> c div 3 = bc"
  by presburger

lemma box_offset: "r div 3 = br \<Longrightarrow> r - br * 3 = r mod (3::nat)"
  by presburger

lemma fillBox_cell:
  assumes "wf_grid board" "br < 3" "bc < 3"
  shows "\<exists>numbers. distinct numbers \<and> set numbers = {1..9} \<and> length numbers = 9 \<and>
           wf_grid (fst (fillBox rnd board (br * 3) (bc * 3) k)) \<and>
           (\<forall>r c. cell (fst (fillBox rnd board (br * 3) (bc * 3) k)) r c =
              (if r div 3 = br \<and> c div 3 = bc then Some (numbers ! (3 * (r mod 3) + c mod 3))
               else cell board r c))"
proof -
  obtain numbers k1 where s: "shuffleArray rnd [1, 2, 3, 4, 5, 6, 7, 8, 9::int] k = (numbers, k1)"
    by (cases "shuffleArray rnd [1, 2, 3, 4, 5, 6, 7, 8, 9::int] k")
  from shuffleArray_mset [of rnd "[1, 2, 3, 4, 5, 6, 7, 8, 9::int]" k] s
  have m: "mset numbers = mset [1, 2, 3, 4, 5, 6, 7, 8, 9::int]" by simp
  have "distinct [1, 2, 3, 4, 5, 6, 7, 8, 9::int]" by simp
  with m have d: "distinct numbers" by (metis mset_eq_imp_distinct_iff)
  from m have "set numbers = set [1, 2, 3, 4, 5, 6, 7, 8, 9::int]" by (rule mset_eq_setD)
  also have "\<dots> = {1..9}" unfolding digits_upto by simp
  finally have st: "set numbers = {1..9}" .
  from shuffleArray_length [of rnd "[1, 2, 3, 4, 5, 6, 7, 8, 9::int]" k] s
  have l: "length numbers = 9" by simp
  let ?ps = "concat (map (\<lambda>i. map (\<lambda>j. (i, j)) [0..<3]) [0..<3])"
  let ?f = "\<lambda>i j. numbers ! (3 * i + j)"
  have b: "fst (fillBox rnd board (br * 3) (bc * 3) k)
      = foldl (\<lambda>b (i, j). put b (br * 3 + i) (bc * 3 + j) (?f i j)) board ?ps"
    by (simp add: fillBox_def s)
  have range: "\<forall>i j. (i, j) \<in> set ?ps \<longrightarrow> br * 3 + i < 9 \<and> bc * 3 + j < 9"
    using assms(2,3) unfolding box_positions_set by simp
  note fp = foldl_put_cell [OF assms(1) range, where f = ?f, folded b]
  from fp have w: "wf_grid (fst (fillBox rnd board (br * 3) (bc * 3) k))" by blast
  have c: "cell (fst (fillBox rnd board (br * 3) (bc * 3) k)) r c =
      (if r div 3 = br \<and> c div 3 = bc then Some (numbers ! (3 * (r mod 3) + c mod 3))
       else cell board r c)" for r c
  proof -
    let ?in = "(r - br * 3, c - bc * 3) \<in> set ?ps \<and> br * 3 \<le> r \<and> bc * 3 \<le> c"
    have i: "?in \<longleftrightarrow> r div 3 = br \<and> c div 3 = bc"
      unfolding box_positions_set using in_box_iff [of r br c bc] by simp
    from fp [of r c] have e: "cell (fst (fillBox rnd board (br * 3) (bc * 3) k)) r c =
        (if ?in then Some (numbers ! (3 * (r - br * 3) + (c - bc * 3))) else cell board r c)"
      by (rule conjunct2)
    show ?thesis
    proof (cases "r div 3 = br \<and> c div 3 = bc")
      case True
      then have o: "r - br * 3 = r mod 3" "c - bc * 3 = c mod 3" by (simp_all add: box_offset)
      from True i have ?in by blast
      with e have "cell (fst (fillBox rnd board (br * 3) (bc * 3) k)) r c
          = Some (numbers ! (3 * (r - br * 3) + (c - bc * 3)))"
        by (simp only: if_True simp_thms)
      with True show ?thesis unfolding o by (simp only: if_True simp_thms)
    next
      case False
      with i have "\<not> ?in" by blast
      with e have "cell (fst (fillBox rnd board (br * 3) (bc * 3) k)) r c = cell board r c"
        by (simp only: if_False simp_thms)
      with False show ?thesis by (simp only: if_False simp_thms)
    qed
  qed
  from d st l w c show ?thesis by blast
qed

lemma cell_emptyGrid: "cell emptyGrid r c = (if r < 9 \<and> c < 9 then Some 0 else None)"
  by (auto simp: cell_def emptyGrid_def)

lemma wf_emptyGrid: "wf_grid emptyGrid"
  by (simp add: wf_grid_def emptyGrid_def list_all_iff)

lemma fillDiagonalBoxes_steps:
  "fst (fillDiagonalBoxes rnd board k) =
     fst (fillBox rnd (fst (fillBox rnd (fst (fillBox rnd board (0 * 3) (0 * 3) k)) (1 * 3) (1 * 3)
            (snd (fillBox rnd board (0 * 3) (0 * 3) k))))
          (2 * 3) (2 * 3)
          (snd (fillBox rnd (fst (fillBox rnd board (0 * 3) (0 * 3) k)) (1 * 3) (1 * 3)
            (snd (fillBox rnd board (0 * 3) (0 * 3) k)))))"
  by (simp add: fillDiagonalBoxes_def upt_rec split_beta)

lemma div3_cases: "r < 9 \<Longrightarrow> r div 3 = 0 \<or> r div 3 = 1 \<or> r div 3 = (2::nat)"
  by presburger

lemma fillDiagonalBoxes_seeded: "\<exists>n. seeded n (fst (fillDiagonalBoxes rnd emptyGrid k))"
proof -
  let ?b0 = "fst (fillBox rnd emptyGrid (0 * 3) (0 * 3) k)"
  let ?k0 = "snd (fillBox rnd emptyGrid (0 * 3) (0 * 3) k)"
  let ?b1 = "fst (fillBox rnd ?b0 (1 * 3) (1 * 3) ?k0)"
  let ?k1 = "snd (fillBox rnd ?b0 (1 * 3) (1 * 3) ?k0)"
  let ?b2 = "fst (fillBox rnd ?b1 (2 * 3) (2 * 3) ?k1)"
  from fillBox_cell [OF wf_emptyGrid, of 0 0 rnd k]
  obtain n0 where 0: "distinct n0" "set n0 = {1..9}" "length n0 = 9" "wf_grid ?b0"
    "\<And>r c. cell ?b0 r c = (if r div 3 = 0 \<and> c div 3 = 0 then Some (n0 ! (3 * (r mod 3) + c mod 3))
               else cell emptyGrid r c)"
    by auto
  from fillBox_cell [OF 0(4), of 1 1 rnd ?k0]
  obtain n1 where 1: "distinct n1" "set n1 = {1..9}" "length n1 = 9" "wf_grid ?b1"
    "\<And>r c. cell ?b1 r c = (if r div 3 = 1 \<and> c div 3 = 1 then Some (n1 ! (3 * (r mod 3) + c mod 3))
               else cell ?b0 r c)"
    by auto
  from fillBox_cell [OF 1(4), of 2 2 rnd ?k1]
  obtain n2 where 2: "distinct n2" "set n2 = {1..9}" "length n2 = 9" "wf_grid ?b2"
    "\<And>r c. cell ?b2 r c = (if r div 3 = 2 \<and> c div 3 = 2 then Some (n2 ! (3 * (r mod 3) + c mod 3))
               else cell ?b1 r c)"
    by auto
  let ?n = "\<lambda>i::nat. if i = 0 then n0 else if i = 1 then n1 else n2"
  have s: "fst (fillDiagonalBoxes rnd emptyGrid k) = ?b2" by (rule fillDiagonalBoxes_steps)
  have c: "cell ?b2 r c = Some (if r div 3 = c div 3 then ?n (r div 3) ! (3 * (r mod 3) + c mod 3) else 0)"
    if "r < 9" "c < 9" for r c
    using div3_cases [OF that(1)] div3_cases [OF that(2)] that
    unfolding 2(5) 1(5) 0(5) cell_emptyGrid by auto
  have "seeded ?n ?b2"
    unfolding seeded_def using 0(1-3) 1(1-3) 2(1-4) c by simp
  then have "seeded ?n (fst (fillDiagonalBoxes rnd emptyGrid k))" unfolding s .
  then show ?thesis by (rule exI [of _ ?n])
qed

lemma index_split:
  assumes "3 * a + b = 3 * a' + b'" "b < 3" "b' < (3::nat)"
  shows "a = a' \<and> b = b'"
proof -
  have "(3 * a + b) div 3 = a" "(3 * a' + b') div 3 = a'" using assms(2,3) by simp_all
  with assms(1) have "a = a'" by simp
  with assms(1) show ?thesis by simp
qed

lemma box_cell_index:
  assumes "r div 3 = r' div 3" "c div 3 = c' div 3"
    "3 * (r mod 3) + c mod 3 = 3 * (r' mod 3) + c' mod (3::nat)"
  shows "r = r' \<and> c = c'"
proof -
  have "c mod 3 < 3" "c' mod 3 < 3" by simp_all
  from index_split [OF assms(3) this] have m: "r mod 3 = r' mod 3" "c mod 3 = c' mod 3" by blast+
  from assms(1) m(1) have "r = r'" by (metis div_mult_mod_eq)
  moreover from assms(2) m(2) have "c = c'" by (metis div_mult_mod_eq)
  ultimately show ?thesis by blast
qed

lemma index_bound: "3 * (r mod 3) + c mod 3 < (9::nat)"
proof -
  have "r mod 3 < 3" "c mod 3 < 3" by simp_all
  then show ?thesis by linarith
qed

lemma peer_box:
  "peer r c r' c' \<Longrightarrow> r div 3 = c div 3 \<Longrightarrow> r' div 3 = c' div 3 \<Longrightarrow> r' div 3 = r div 3 \<and> c' div 3 = c div 3"
  unfolding peer_def by auto

lemma seeded_consistent:
  assumes "seeded n s"
  shows "consistent s"
proof -
  from assms have w: "wf_grid s"
    and n: "\<And>i. i < 3 \<Longrightarrow> distinct (n i) \<and> set (n i) = {1..9} \<and> length (n i) = 9"
    and c: "\<And>r c. r < 9 \<Longrightarrow> c < 9 \<Longrightarrow> cell s r c =
        Some (if r div 3 = c div 3 then n (r div 3) ! (3 * (r mod 3) + c mod 3) else 0)"
    unfolding seeded_def by blast+
  have filled: "r < 9 \<and> c < 9 \<and> r div 3 = c div 3 \<and> v = n (r div 3) ! (3 * (r mod 3) + c mod 3)"
    if "cell s r c = Some v" "v \<noteq> 0" for r c v
  proof -
    from that(1) wf_cell [OF w, of r c] have b: "r < 9" "c < 9" by simp_all
    from c [OF b] that show ?thesis using b by (auto split: if_splits)
  qed
  have digit: "n i ! j \<in> {1..9}" if "i < 3" "j < 9" for i j
    using n [OF that(1)] that(2) by (metis nth_mem)
  show ?thesis
    unfolding consistent_iff
  proof (intro conjI allI impI)
    show "wf_grid s" by (rule w)
  next
    fix r c v assume a: "cell s r c = Some v"
    with wf_cell [OF w, of r c] have b: "r < 9" "c < 9" by simp_all
    then have "r div 3 < 3" by simp
    from digit [OF this index_bound [of r c]] c [OF b] a
    show "0 \<le> v" "v \<le> 9" by (auto split: if_splits)
  next
    fix r c v assume a: "cell s r c = Some v" and nz: "v \<noteq> 0"
    from filled [OF a nz] have f: "r < 9" "c < 9" "r div 3 = c div 3"
      "v = n (r div 3) ! (3 * (r mod 3) + c mod 3)" by blast+
    show "isValidMove s r c v"
      unfolding isValidMove_peer
    proof (intro allI impI notI)
      fix r' c' assume p: "peer r c r' c'" and a': "cell s r' c' = Some v"
      from filled [OF a' nz] have f': "r' < 9" "c' < 9" "r' div 3 = c' div 3"
        "v = n (r' div 3) ! (3 * (r' mod 3) + c' mod 3)" by blast+
      from peer_box [OF p f(3) f'(3)] have same: "r' div 3 = r div 3" "c' div 3 = c div 3" by blast+
      from f(1) have k: "r div 3 < 3" by simp
      from n [OF k] have d: "distinct (n (r div 3))" "length (n (r div 3)) = 9" by blast+
      from f(4) f'(4) same have "n (r div 3) ! (3 * (r mod 3) + c mod 3)
          = n (r div 3) ! (3 * (r' mod 3) + c' mod 3)" by simp
      with d index_bound [of r c] index_bound [of r' c']
      have "3 * (r mod 3) + c mod 3 = 3 * (r' mod 3) + c' mod 3"
        by (simp add: nth_eq_iff_index_eq)
      from box_cell_index [OF same(1) [symmetric] same(2) [symmetric] this]
      have "r = r' \<and> c = c'" .
      with p peer_irrefl show False by blast
    qed
  qed
qed

lemma box_cell_of_index:
  assumes "k < 3" "j < (9::nat)"
  shows "3 * k + j div 3 < 9 \<and> 3 * k + j mod 3 < 9 \<and> (3 * k + j div 3) div 3 = k \<and>
         (3 * k + j mod 3) div 3 = k \<and> 3 * ((3 * k + j div 3) mod 3) + (3 * k + j mod 3) mod 3 = j"
proof -
  from assms(2) have d: "j div 3 < 3" by simp
  have m: "j mod 3 < 3" by simp
  have 1: "(3 * k + j div 3) div 3 = k" using d by simp
  have 2: "(3 * k + j mod 3) div 3 = k" using m by simp
  have 3: "(3 * k + j div 3) mod 3 = j div 3" using d by simp
  have 4: "(3 * k + j mod 3) mod 3 = j mod 3" by simp
  have 5: "3 * (j div 3) + j mod 3 = j" by simp
  from assms(1) d m 1 2 show ?thesis unfolding 3 4 5 by simp
qed

text \<open>A cell of a full box is forced by the other eight.\<close>

lemma seeded_forced:
  assumes "seeded n s" "completion (put s r c 0) g"
  shows "completion s g"
proof -
  from assms(1) have w: "wf_grid s"
    and n: "\<And>i. i < 3 \<Longrightarrow> distinct (n i) \<and> set (n i) = {1..9} \<and> length (n i) = 9"
    and cs: "\<And>r c. r < 9 \<Longrightarrow> c < 9 \<Longrightarrow> cell s r c =
        Some (if r div 3 = c div 3 then n (r div 3) ! (3 * (r mod 3) + c mod 3) else 0)"
    unfolding seeded_def by blast+
  have wp: "wf_grid (put s r c 0)" using w by (simp add: wf_put)
  from assms(2) have wg: "wf_grid g"
    and dg: "\<And>r c v. cell g r c = Some v \<Longrightarrow> 1 \<le> v \<and> v \<le> 9 \<and> isValidMove g r c v"
    and eg: "\<And>r' c' v. cell (put s r c 0) r' c' = Some v \<Longrightarrow> v \<noteq> 0 \<Longrightarrow> cell g r' c' = Some v"
    unfolding completion_iff [OF wp] by blast+
  have "cell g r' c' = Some v" if a: "cell s r' c' = Some v" and nz: "v \<noteq> 0" for r' c' v
  proof (cases "r' = r \<and> c' = c")
    case False
    with a have "cell (put s r c 0) r' c' = Some v" by (auto simp: cell_put)
    from eg [OF this nz] show ?thesis .
  next
    case True
    with a wf_cell [OF w, of r c] have b: "r < 9" "c < 9" by simp_all
    from cs [OF b] a nz True have box: "r div 3 = c div 3"
      and v: "v = n (r div 3) ! (3 * (r mod 3) + c mod 3)"
      by (auto split: if_splits)
    from b have k: "r div 3 < 3" by simp
    from wf_cell [OF wg, of r c] b obtain x where x: "cell g r c = Some x" by auto
    from dg [OF x] have xr: "1 \<le> x" "x \<le> 9" and xv: "isValidMove g r c x" by blast+
    from xr n [OF k] have "x \<in> set (n (r div 3))" by simp
    then obtain j where j: "j < 9" "n (r div 3) ! j = x"
      using n [OF k] by (metis in_set_conv_nth)
    let ?r = "3 * (r div 3) + j div 3" and ?c = "3 * (r div 3) + j mod 3"
    from box_cell_of_index [OF k j(1)] have i: "?r < 9" "?c < 9" "?r div 3 = r div 3"
      "?c div 3 = r div 3" "3 * (?r mod 3) + ?c mod 3 = j" by blast+
    from cs [OF i(1,2)] i(3,4,5) j(2) have sx: "cell s ?r ?c = Some x" by simp
    have "?r = r \<and> ?c = c"
    proof (rule ccontr)
      assume ne: "\<not> (?r = r \<and> ?c = c)"
      with sx have "cell (put s r c 0) ?r ?c = Some x" by (auto simp: cell_put)
      from eg [OF this] xr have "cell g ?r ?c = Some x" by simp
      moreover from i(3,4) box ne have "peer r c ?r ?c" unfolding peer_def by auto
      ultimately show False using xv unfolding isValidMove_peer by blast
    qed
    with sx a True have "x = v" by simp
    with x True show ?thesis by simp
  qed
  with wg dg show ?thesis unfolding completion_iff [OF w] by blast
qed

subsection \<open>What fillBoard finds\<close>

lemma fill_success:
  "fst (fillBoard rnd board k) \<Longrightarrow> findEmpty (fst (snd (fillBoard rnd board k))) = None"
  "fst (fillNums rnd' b k' row col nums) \<Longrightarrow>
     findEmpty (fst (snd (fillNums rnd' b k' row col nums))) = None"
proof (induction rnd board k and rnd' b k' row col nums rule: fillBoard_fillNums.induct)
  case (1 rnd board k)
  show ?case
  proof (cases "findEmpty board")
    case None
    then show ?thesis by (simp add: fillBoard.simps [of rnd board k])
  next
    case (Some p)
    obtain r c where p: "p = (r, c)" by (cases p)
    obtain numbers k1 where s: "shuffleArray rnd [1, 2, 3, 4, 5, 6, 7, 8, 9::int] k = (numbers, k1)"
      by (cases "shuffleArray rnd [1, 2, 3, 4, 5, 6, 7, 8, 9::int] k")
    from 1(2) Some p s have "fst (fillNums rnd board k1 r c numbers)"
      by (simp add: fillBoard.simps [of rnd board k])
    from 1(1) [OF Some p [symmetric] s [symmetric] this] Some p s
    show ?thesis by (simp add: fillBoard.simps [of rnd board k])
  qed
next
  case (2 rnd board k row col)
  then show ?case by (simp add: fillNums.simps(1))
next
  case (3 rnd board k row col num nums)
  note eq = fillNums.simps(2) [of rnd board k row col num nums]
  show ?case
  proof (cases "isValidMove board row col num")
    case False
    with 3(4) have "fst (fillNums rnd board k row col nums)" by (simp add: eq)
    from 3(3) [OF False this] False show ?thesis by (simp add: eq)
  next
    case True
    obtain ok b' k1 where r: "fillBoard rnd (put board row col num) k = (ok, b', k1)"
      by (cases "fillBoard rnd (put board row col num) k")
    show ?thesis
    proof (cases ok)
      case ok: True
      from 3(1) [OF True] r ok have "findEmpty b' = None" by simp
      with True r ok show ?thesis by (simp add: eq)
    next
      case False
      with 3(4) True r have "fst (fillNums rnd (put b' row col 0) k1 row col nums)" by (simp add: eq)
      from 3(2) [OF True r [symmetric] _ refl this] False True r show ?thesis by (simp add: eq)
    qed
  qed
qed

lemma fill_complete:
  "consistent board \<Longrightarrow> \<not> fst (fillBoard rnd board k) \<Longrightarrow> \<not> completion board g"
  "consistent b \<Longrightarrow> cell b row col = Some 0 \<Longrightarrow> set nums \<subseteq> {1..9} \<Longrightarrow>
     \<not> fst (fillNums rnd' b k' row col nums) \<Longrightarrow> completion b g \<Longrightarrow>
     \<forall>v \<in> set nums. cell g row col \<noteq> Some v"
proof (induction rnd board k and rnd' b k' row col nums rule: fillBoard_fillNums.induct)
  case (1 rnd board k)
  from 1(2) have w: "wf_grid board" by (simp add: consistent_def)
  show ?case
  proof (cases "findEmpty board")
    case None
    with 1(3) show ?thesis by (simp add: fillBoard.simps [of rnd board k])
  next
    case (Some p)
    obtain r c where p: "p = (r, c)" by (cases p)
    from Some p have z: "cell board r c = Some 0" by (simp add: findEmpty_cell)
    obtain numbers k1 where s: "shuffleArray rnd [1, 2, 3, 4, 5, 6, 7, 8, 9::int] k = (numbers, k1)"
      by (cases "shuffleArray rnd [1, 2, 3, 4, 5, 6, 7, 8, 9::int] k")
    from shuffleArray_set [of rnd "[1, 2, 3, 4, 5, 6, 7, 8, 9::int]" k] s
    have "set numbers = set [1, 2, 3, 4, 5, 6, 7, 8, 9::int]" by simp
    then have ns: "set numbers = {1..9}" unfolding digits_upto by simp
    then have sub: "set numbers \<subseteq> {1..9}" by simp
    from 1(3) Some p s have f: "\<not> fst (fillNums rnd board k1 r c numbers)"
      by (simp add: fillBoard.simps [of rnd board k])
    show ?thesis
    proof
      assume g: "completion board g"
      from 1(1) [OF Some p [symmetric] s [symmetric] 1(2) z sub f g]
      have "\<forall>v \<in> set numbers. cell g r c \<noteq> Some v" .
      moreover from completion_digit [OF w g z] ns have "\<exists>v \<in> set numbers. cell g r c = Some v"
        by auto
      ultimately show False by blast
    qed
  qed
next
  case (2 rnd board k row col)
  then show ?case by simp
next
  case (3 rnd board k row col num nums)
  note eq = fillNums.simps(2) [of rnd board k row col num nums]
  note cons = 3(4) and z = 3(5) and f = 3(7) and g = 3(8)
  from 3(6) have n: "1 \<le> num" "num \<le> 9" and ns: "set nums \<subseteq> {1..9}" by auto
  from cons have w: "wf_grid board" by (simp add: consistent_def)
  from n have nz: "num \<noteq> 0" by simp
  show ?case
  proof (cases "isValidMove board row col num")
    case False
    with f have "\<not> fst (fillNums rnd board k row col nums)" by (simp add: eq)
    from 3(3) [OF False cons z ns this g] invalid_excludes [OF w g False nz]
    show ?thesis by simp
  next
    case True
    obtain ok b' k1 where r: "fillBoard rnd (put board row col num) k = (ok, b', k1)"
      by (cases "fillBoard rnd (put board row col num) k")
    from f True r have no: "\<not> ok" by (cases ok) (simp_all add: eq)
    from fill_restores(1) [of rnd "put board row col num" k] r no
    have "b' = put board row col num" by simp
    then have restored: "put b' row col 0 = board" using z by (simp add: put_put put_same)
    have c1: "consistent (put board row col num)"
      by (rule consistent_put [OF cons z True n])
    from 3(1) [OF True c1] r no have "\<not> completion (put board row col num) g" by simp
    with g have here: "cell g row col \<noteq> Some num" by (simp add: completion_put [OF w z nz])
    from f True r no have "\<not> fst (fillNums rnd (put b' row col 0) k1 row col nums)" by (simp add: eq)
    then have "\<not> fst (fillNums rnd board k1 row col nums)" unfolding restored .
    with 3(2) [OF True r [symmetric] _ refl, unfolded restored, OF _ cons z ns _ g] no
    have "\<forall>v \<in> set nums. cell g row col \<noteq> Some v" by simp
    with here show ?thesis by simp
  qed
qed

lemma removeLoop_stuck:
  assumes "consistent s" "\<And>g. \<not> completion s g"
    "\<And>r c g. completion (put s r c 0) g \<Longrightarrow> completion s g"
  shows "fst (removeLoop s ps t removed) = s"
proof (induction ps arbitrary: removed)
  case Nil
  then show ?case by simp
next
  case (Cons p ps)
  obtain row col where p: "p = (row, col)" by (cases p)
  show ?case
  proof (cases "cell s row col")
    case None
    with Cons p show ?thesis by simp
  next
    case (Some v)
    have "consistent (put s row col 0)" by (rule consistent_put0 [OF assms(1)])
    then have "hasUniqueSolution (put s row col 0) \<longleftrightarrow> (\<exists>!g. completion (put s row col 0) g)"
      by (rule unique_iff_one_completion)
    with assms(2,3) have "\<not> hasUniqueSolution (put s row col 0)" by blast
    moreover from Some have "put (put s row col 0) row col v = s" by (rule put_restore0)
    ultimately show ?thesis using Cons Some p by (simp add: Let_def)
  qed
qed


text \<open>
  When the search of \<^verbatim>\<open>generateCompleteSudoku\<close> fails, the board it leaves is the three
  diagonal boxes, which then have no completion; no removal from it is accepted.
\<close>

lemma generateCompleteSudoku_cases:
  "consistent (fst (generateCompleteSudoku rnd k)) \<and>
   (findEmpty (fst (generateCompleteSudoku rnd k)) = None \<or>
    (\<forall>ps t removed. \<not> hasUniqueSolution (fst (removeLoop (fst (generateCompleteSudoku rnd k)) ps t removed))))"
proof -
  obtain n where n: "seeded n (fst (fillDiagonalBoxes rnd emptyGrid k))"
    using fillDiagonalBoxes_seeded by blast
  obtain s k1 where d: "fillDiagonalBoxes rnd emptyGrid k = (s, k1)"
    by (cases "fillDiagonalBoxes rnd emptyGrid k")
  obtain ok b k2 where f: "fillBoard rnd s k1 = (ok, b, k2)" by (cases "fillBoard rnd s k1")
  have e: "fst (generateCompleteSudoku rnd k) = b"
    by (simp add: generateCompleteSudoku_def d f emptyGrid_def [symmetric])
  from n d have sd: "seeded n s" by simp
  then have cs: "consistent s" by (rule seeded_consistent)
  from fill_consistent(1) [OF cs, of rnd k1] f have cb: "consistent b" by simp
  show ?thesis
  proof (cases ok)
    case True
    with fill_success(1) [of rnd s k1] f have "findEmpty b = None" by simp
    with cb show ?thesis unfolding e by simp
  next
    case False
    with fill_restores(1) [of rnd s k1] f have b: "b = s" by simp
    from False f have "\<not> fst (fillBoard rnd s k1)" by simp
    from fill_complete(1) [OF cs this] have none: "\<And>g. \<not> completion s g" .
    have stuck: "fst (removeLoop s ps t removed) = s" for ps t removed
      by (rule removeLoop_stuck [OF cs none seeded_forced [OF sd]])
    from unique_iff_one_completion [OF cs] none have "\<not> hasUniqueSolution s" by blast
    with cb show ?thesis unfolding e b stuck by simp
  qed
qed

lemma returned_solution_full:
  assumes "generateSudoku rnd now options k = Some p" and "ensureUnique options"
  shows "consistent (puzzleSolution p) \<and> findEmpty (puzzleSolution p) = None"
proof -
  from generateSudoku_result [OF assms(1)] assms(2) obtain k0 where
    s: "puzzleSolution p = fst (generateCompleteSudoku rnd k0)" and
    b: "puzzleBoard p = fst (removeLoop (puzzleSolution p) positions (81 - clues options) 0)" and
    u: "hasUniqueSolution (puzzleBoard p)"
    by blast
  from generateCompleteSudoku_cases [of rnd k0] u show ?thesis
    unfolding b s by blast
qed





text \<open>The solution of such a puzzle is a complete valid grid.\<close>

lemma returned_solution_valid:
  assumes "generateSudoku rnd now options k = Some p" and "ensureUnique options"
  shows "validateSudoku (puzzleSolution p) \<and> completion (puzzleSolution p) (puzzleSolution p)"
proof -
  from returned_solution_full [OF assms]
  have "consistent (puzzleSolution p)" "findEmpty (puzzleSolution p) = None" by blast+
  from completion_full [OF this, of "puzzleSolution p"]
  have "completion (puzzleSolution p) (puzzleSolution p)" by simp
  then show ?thesis by (simp add: completion_def)
qed

text \<open>
  The board of such a puzzle has exactly one completion: the uniqueness test of the code
  agrees with the specification's notion on a consistent board.
\<close>

lemma generated_board_one_completion:
  assumes "generateSudoku rnd now options k = Some p" and "ensureUnique options"
  shows "\<exists>!g. completion (puzzleBoard p) g"
proof -
  from generateSudoku_result [OF assms(1)] assms(2) have
    b: "puzzleBoard p = fst (removeLoop (puzzleSolution p) positions (81 - clues options) 0)" and
    u: "hasUniqueSolution (puzzleBoard p)"
    by blast+
  from returned_solution_full [OF assms] have "consistent (puzzleSolution p)" by blast
  then have "consistent (puzzleBoard p)" unfolding b by (rule removeLoop_consistent)
  from unique_iff_one_completion [OF this] u show ?thesis by blast
qed

end
